theory Spec2Isabelle
  imports Complex_Main "HOL-Library.Word" "HOL-Library.Sublist"
begin

section \<open>Reliable UDP senders: fixed sliding window and stop-and-wait\<close>

text \<open>
  A shallow embedding of the two sender scripts (\<^verbatim>\<open>transmit_file\<close> of the fixed
  sliding window sender, \<^verbatim>\<open>send_one_packet\<close> and \<^verbatim>\<open>send_file\<close> of the stop-and-wait
  sender).  Python integers are \<^typ>\<open>int\<close>, byte strings are lists of 8-bit words,
  exceptions are values of type \<open>error\<close> on the left of a sum, and every call of
  \<^verbatim>\<open>time.time()\<close> reads the next value of a clock \<open>clk\<close>, a function from the number
  of readings made so far to the reading.  Python floats are idealised as \<^typ>\<open>real\<close>.
\<close>

subsection \<open>Exceptions, bytes and the 4-byte header\<close>

datatype error = OverflowError | UnicodeDecodeError | ZeroDivisionError

type_synonym byte = "8 word"

definition MAX_PACKET :: nat where "MAX_PACKET = 1024"
definition SEQ_SIZE :: nat where "SEQ_SIZE = 4"
definition DATA_SIZE :: nat where "DATA_SIZE = MAX_PACKET - SEQ_SIZE"
definition WINDOW :: nat where "WINDOW = 100"
definition RETRANSMIT_TIME :: real where "RETRANSMIT_TIME = 1 / 2"

text \<open>
  \<^verbatim>\<open>int.to_bytes(n, len, signed=True, byteorder='big')\<close>: two's complement on \<open>len\<close>
  bytes, most significant byte first; \<^verbatim>\<open>OverflowError\<close> when \<open>n\<close> is outside
  \<open>[-2^(8 len - 1), 2^(8 len - 1))\<close> (written with \<open>2 * n\<close> so that \<open>len = 0\<close> admits
  only \<open>0\<close>, as Python does).
\<close>

definition int_to_bytes :: "int \<Rightarrow> nat \<Rightarrow> error + byte list" where
  "int_to_bytes n len =
     (if - (2 ^ (8 * len)) \<le> 2 * n \<and> 2 * n < 2 ^ (8 * len)
      then Inr (map (\<lambda>i. word_of_int (n div 2 ^ (8 * (len - 1 - i)))) [0..<len])
      else Inl OverflowError)"

text \<open>
  \<^verbatim>\<open>int.from_bytes(bs, signed=True, byteorder='big')\<close>: defined for every length,
  the empty byte string included (value \<open>0\<close>).
\<close>

definition int_from_bytes :: "byte list \<Rightarrow> int" where
  "int_from_bytes bs =
     (let u = foldl (\<lambda>acc b. acc * 256 + uint b) 0 bs
      in if 2 ^ (8 * length bs) \<le> 2 * u then u - 2 ^ (8 * length bs) else u)"

text \<open>A byte-string literal such as \<^verbatim>\<open>b'==FINACK=='\<close>, and a text literal as its code points.\<close>

definition bytes_of :: "string \<Rightarrow> byte list" where
  "bytes_of cs = map of_char cs"

definition str_of :: "string \<Rightarrow> nat list" where
  "str_of cs = map of_char cs"

text \<open>
  \<^verbatim>\<open>bytes.decode()\<close>: strict UTF-8 to a list of code points, \<^verbatim>\<open>UnicodeDecodeError\<close>
  on a byte sequence that is not well-formed UTF-8 (a stray continuation byte, an
  overlong form, a surrogate, a value above U+10FFFF or a truncated sequence).
  \<open>utf8_lead b\<close> classifies the first byte of a character: the number of continuation
  bytes that follow, the bits collected so far and the range of the next byte.
  \<open>utf8_from bs need cp lo hi\<close> still expects \<open>need\<close> continuation bytes of the
  current character, the next of them within \<open>[lo, hi]\<close>, and has collected \<open>cp\<close>.
\<close>

definition utf8_lead :: "byte \<Rightarrow> (nat \<times> nat \<times> byte \<times> byte) option" where
  "utf8_lead b =
     (if b < 0x80 then Some (0, unat b, 0x80, 0xBF)
      else if 0xC2 \<le> b \<and> b \<le> 0xDF then Some (1, unat b - 0xC0, 0x80, 0xBF)
      else if b = 0xE0 then Some (2, 0, 0xA0, 0xBF)
      else if b = 0xED then Some (2, 0xD, 0x80, 0x9F)
      else if 0xE1 \<le> b \<and> b \<le> 0xEF then Some (2, unat b - 0xE0, 0x80, 0xBF)
      else if b = 0xF0 then Some (3, 0, 0x90, 0xBF)
      else if 0xF1 \<le> b \<and> b \<le> 0xF3 then Some (3, unat b - 0xF0, 0x80, 0xBF)
      else if b = 0xF4 then Some (3, 4, 0x80, 0x8F)
      else None)"

primrec utf8_from :: "byte list \<Rightarrow> nat \<Rightarrow> nat \<Rightarrow> byte \<Rightarrow> byte \<Rightarrow> error + nat list" where
  "utf8_from [] need cp lo hi = (if need = 0 then Inr [] else Inl UnicodeDecodeError)"
| "utf8_from (b # bs) need cp lo hi =
     (if need = 0 then
        (case utf8_lead b of
           None \<Rightarrow> Inl UnicodeDecodeError
         | Some (need', cp', lo', hi') \<Rightarrow>
             if need' = 0 then
               (case utf8_from bs 0 0 0x80 0xBF of Inl e \<Rightarrow> Inl e | Inr cps \<Rightarrow> Inr (cp' # cps))
             else utf8_from bs need' cp' lo' hi')
      else if lo \<le> b \<and> b \<le> hi then
        (let cp' = cp * 64 + (unat b - 0x80)
         in if need = 1 then
              (case utf8_from bs 0 0 0x80 0xBF of Inl e \<Rightarrow> Inl e | Inr cps \<Rightarrow> Inr (cp' # cps))
            else utf8_from bs (need - 1) cp' 0x80 0xBF)
      else Inl UnicodeDecodeError)"

definition decode :: "byte list \<Rightarrow> error + nat list" where
  "decode bs = utf8_from bs 0 0 0x80 0xBF"

subsection \<open>The packet table and the segmenter\<close>

text \<open>
  One dictionary of \<^verbatim>\<open>packet_list\<close>.  The field \<^verbatim>\<open>'length'\<close> is called \<open>length_f\<close>.
  The payload of a packet is its raw frame without the header.
\<close>

record packet =
  sequence :: int
  raw :: "byte list"
  length_f :: int
  is_acked :: bool
  first_sent :: "real option"
  recent_sent :: "real option"

definition payload :: "packet \<Rightarrow> byte list" where
  "payload p = drop SEQ_SIZE (raw p)"

definition new_packet :: "int \<Rightarrow> byte list \<Rightarrow> byte list \<Rightarrow> packet" where
  "new_packet sq raw_packet data =
     \<lparr>sequence = sq, raw = raw_packet, length_f = int (length data),
      is_acked = False, first_sent = None, recent_sent = None\<rparr>"

text \<open>
  The loop \<^verbatim>\<open>while position < total_bytes\<close> of \<^verbatim>\<open>transmit_file\<close>, with the chunk size a
  parameter \<open>c\<close> (the script uses \<open>DATA_SIZE\<close>).  The result is \<open>None\<close> when the loop
  does not return (chunk size \<open>0\<close> on a non-empty payload).
\<close>

partial_function (option) segment_loop ::
  "nat \<Rightarrow> byte list \<Rightarrow> nat \<Rightarrow> packet list \<Rightarrow> (error + packet list) option" where
  "segment_loop c contents position packet_list =
     (if position < length contents then
        (let data = take c (drop position contents);
             sq = int position
         in case int_to_bytes sq SEQ_SIZE of
              Inl e \<Rightarrow> Some (Inl e)
            | Inr hdr \<Rightarrow>
                segment_loop c contents (position + length data)
                  (packet_list @ [new_packet sq (hdr @ data) data]))
      else Some (Inr packet_list))"

declare segment_loop.simps [code]

definition segmenter :: "nat \<Rightarrow> byte list \<Rightarrow> (error + packet list) option" where
  "segmenter c contents = segment_loop c contents 0 []"

definition final_pkt :: "nat \<Rightarrow> error + byte list" where
  "final_pkt total_bytes =
     (case int_to_bytes (int total_bytes) SEQ_SIZE of
        Inl e \<Rightarrow> Inl e
      | Inr hdr \<Rightarrow> Inr (hdr @ []))"

definition closing :: "error + byte list" where
  "closing =
     (case int_to_bytes 0 SEQ_SIZE of
        Inl e \<Rightarrow> Inl e
      | Inr hdr \<Rightarrow> Inr (hdr @ bytes_of ''==FINACK==''))"

subsection \<open>The sliding window sender: state and the data phase\<close>

text \<open>
  What \<^verbatim>\<open>sock.recvfrom(MAX_PACKET)\<close> does in one call: it raises \<^verbatim>\<open>socket.timeout\<close> or
  returns a datagram (at most \<open>MAX_PACKET\<close> bytes of it).
\<close>

datatype event = Timeout | Recv "byte list"

text \<open>
  The local variables of \<^verbatim>\<open>transmit_file\<close>, with two additions: \<open>sent\<close> is the log of
  the datagrams passed to \<^verbatim>\<open>sock.sendto\<close>, oldest first, and \<open>ticks\<close> counts the calls of
  \<^verbatim>\<open>time.time()\<close> made so far.
\<close>

record sender =
  packet_list :: "packet list"
  begin_t :: real
  left_edge :: nat
  send_next :: nat
  delays :: "real list"
  last_check :: real
  total_acks :: nat
  resends :: nat
  sent :: "byte list list"
  ticks :: nat

definition num_packets :: "sender \<Rightarrow> nat" where
  "num_packets s = length (packet_list s)"

definition all_acked :: "sender \<Rightarrow> bool" where
  "all_acked s = list_all is_acked (packet_list s)"

text \<open>The body of the initial burst: send, then stamp both times (two clock readings).\<close>

definition send_first :: "(nat \<Rightarrow> real) \<Rightarrow> nat \<Rightarrow> sender \<Rightarrow> sender" where
  "send_first clk idx s =
     (let pkt = packet_list s ! idx
      in s\<lparr>packet_list := (packet_list s)
                [idx := pkt\<lparr>first_sent := Some (clk (ticks s)),
                            recent_sent := Some (clk (ticks s + 1))\<rparr>],
           sent := sent s @ [raw pkt],
           ticks := ticks s + 2\<rparr>)"

text \<open>
  From \<^verbatim>\<open>begin = time.time()\<close> to \<^verbatim>\<open>resends = 0\<close>: the state in which the main loop
  starts, for a window of \<open>W\<close> packets (the script uses \<open>WINDOW\<close>).
\<close>

definition start :: "(nat \<Rightarrow> real) \<Rightarrow> nat \<Rightarrow> packet list \<Rightarrow> sender" where
  "start clk W pl =
     (let s0 = \<lparr>packet_list = pl, begin_t = clk 0, left_edge = 0, send_next = 0,
                delays = [], last_check = clk 0, total_acks = 0, resends = 0,
                sent = [], ticks = 1\<rparr>;
          right_edge = min (left_edge s0 + W) (length pl);
          s1 = fold (send_first clk) [send_next s0..<right_edge] s0;
          s2 = s1\<lparr>send_next := right_edge\<rparr>
      in s2\<lparr>last_check := clk (ticks s2), ticks := ticks s2 + 1\<rparr>)"

text \<open>The body of the cumulative-ACK loop over all packets.\<close>

definition ack_one :: "(nat \<Rightarrow> real) \<Rightarrow> int \<Rightarrow> nat \<Rightarrow> sender \<Rightarrow> sender" where
  "ack_one clk ack_seq idx s =
     (let pkt = packet_list s ! idx;
          next_expected = sequence pkt + length_f pkt
      in if ack_seq \<ge> next_expected \<and> \<not> is_acked pkt then
           (let s1 = s\<lparr>packet_list := (packet_list s)[idx := pkt\<lparr>is_acked := True\<rparr>]\<rparr>
            in case first_sent pkt of
                 Some t \<Rightarrow> s1\<lparr>delays := delays s1 @ [clk (ticks s1) - t],
                               ticks := ticks s1 + 1\<rparr>
               | None \<Rightarrow> s1)
         else s)"

text \<open>\<^verbatim>\<open>while left_edge < num_packets and packet_list[left_edge]['is_acked']\<close>.\<close>

function slide :: "packet list \<Rightarrow> nat \<Rightarrow> nat" where
  "slide pl le = (if le < length pl \<and> is_acked (pl ! le) then slide pl (le + 1) else le)"
  by pat_completeness auto
termination
  by (relation "measure (\<lambda>(pl, le). length pl - le)") auto

declare slide.simps [simp del]

text \<open>The body of the loop that sends the packets which entered the window.\<close>

definition send_new :: "(nat \<Rightarrow> real) \<Rightarrow> nat \<Rightarrow> sender \<Rightarrow> sender" where
  "send_new clk idx s =
     (let pkt = packet_list s ! idx
      in if \<not> is_acked pkt then
           (let s1 = s\<lparr>sent := sent s @ [raw pkt]\<rparr>;
                s2 = (if first_sent pkt = None then
                        s1\<lparr>packet_list := (packet_list s1)
                               [idx := (packet_list s1 ! idx)\<lparr>first_sent := Some (clk (ticks s1))\<rparr>],
                           ticks := ticks s1 + 1\<rparr>
                      else s1)
            in s2\<lparr>packet_list := (packet_list s2)
                      [idx := (packet_list s2 ! idx)\<lparr>recent_sent := Some (clk (ticks s2))\<rparr>],
                  ticks := ticks s2 + 1\<rparr>)
         else s)"

text \<open>The branch \<^verbatim>\<open>if ack_msg == 'ack'\<close>.\<close>

definition handle_ack :: "(nat \<Rightarrow> real) \<Rightarrow> nat \<Rightarrow> int \<Rightarrow> sender \<Rightarrow> sender" where
  "handle_ack clk W ack_seq s =
     (let s1 = fold (ack_one clk ack_seq) [0..<num_packets s] s;
          old_edge = left_edge s1;
          s2 = s1\<lparr>left_edge := slide (packet_list s1) (left_edge s1)\<rparr>
      in if left_edge s2 > old_edge then
           (let s3 = (if send_next s2 < left_edge s2 then s2\<lparr>send_next := left_edge s2\<rparr> else s2);
                right_edge = min (left_edge s3 + W) (num_packets s3);
                s4 = fold (send_new clk) [send_next s3..<right_edge] s3
            in s4\<lparr>send_next := right_edge\<rparr>)
         else s2)"

text \<open>The body of the timeout sweep over the window, at the reading \<open>now\<close>.\<close>

definition resend_one :: "real \<Rightarrow> nat \<Rightarrow> sender \<Rightarrow> sender" where
  "resend_one now idx s =
     (let pkt = packet_list s ! idx
      in case recent_sent pkt of
           None \<Rightarrow> s
         | Some t \<Rightarrow>
             if \<not> is_acked pkt \<and> now - t > RETRANSMIT_TIME then
               s\<lparr>sent := sent s @ [raw pkt],
                 packet_list := (packet_list s)[idx := pkt\<lparr>recent_sent := Some now\<rparr>],
                 resends := resends s + 1\<rparr>
             else s)"

definition timer_check :: "(nat \<Rightarrow> real) \<Rightarrow> nat \<Rightarrow> sender \<Rightarrow> sender" where
  "timer_check clk W s =
     (let now = clk (ticks s);
          s1 = s\<lparr>ticks := ticks s + 1\<rparr>
      in if now - last_check s1 > 1 / 10 then
           (let right_edge = min (left_edge s1 + W) (num_packets s1);
                s2 = fold (resend_one now) [left_edge s1..<right_edge] s1
            in s2\<lparr>last_check := now\<rparr>)
         else s1)"

text \<open>
  One pass through the body of the main loop.  An exception of \<^verbatim>\<open>decode\<close> is not a
  \<^verbatim>\<open>socket.timeout\<close>, so the \<^verbatim>\<open>except\<close> clause does not catch it.
\<close>

definition loop_iter :: "(nat \<Rightarrow> real) \<Rightarrow> nat \<Rightarrow> event \<Rightarrow> sender \<Rightarrow> error + sender" where
  "loop_iter clk W ev s =
     (case ev of
        Timeout \<Rightarrow> Inr (timer_check clk W s)
      | Recv response \<Rightarrow>
          (let s1 = s\<lparr>total_acks := total_acks s + 1\<rparr>;
               ack_seq = int_from_bytes (take SEQ_SIZE response)
           in case decode (drop SEQ_SIZE response) of
                Inl e \<Rightarrow> Inl e
              | Inr ack_msg \<Rightarrow>
                  Inr (timer_check clk W
                        (if ack_msg = str_of ''ack'' then handle_ack clk W ack_seq s1 else s1))))"

text \<open>
  \<^verbatim>\<open>while not all(p['is_acked'] for p in packet_list)\<close> over the results of the
  successive \<^verbatim>\<open>recvfrom\<close> calls; the events that the loop did not consume are returned.
  The loop is still running when the events are used up and a packet is unacknowledged.
\<close>

fun main_loop :: "(nat \<Rightarrow> real) \<Rightarrow> nat \<Rightarrow> event list \<Rightarrow> sender \<Rightarrow> error + sender \<times> event list" where
  "main_loop clk W [] s = Inr (s, [])"
| "main_loop clk W (ev # evs) s =
     (if all_acked s then Inr (s, ev # evs)
      else case loop_iter clk W ev s of
             Inl e \<Rightarrow> Inl e
           | Inr s' \<Rightarrow> main_loop clk W evs s')"

subsection \<open>Teardown, metrics and the whole transfer\<close>

text \<open>
  The loop \<^verbatim>\<open>while not got_fin\<close>, which both scripts contain (the stop-and-wait script
  also reads the header of the FIN frame, which cannot fail).  The result is the flag
  \<open>got_fin\<close>, the log of datagrams sent and the events left over.  When the events are
  used up the terminal frame of the current pass has been sent and the sender waits in
  \<^verbatim>\<open>recvfrom\<close>: the flag is \<open>False\<close>.
\<close>

fun teardown :: "byte list \<Rightarrow> int \<Rightarrow> event list \<Rightarrow> byte list list
                 \<Rightarrow> error + bool \<times> byte list list \<times> event list" where
  "teardown fpkt final_seq [] snt = Inr (False, snt @ [fpkt], [])"
| "teardown fpkt final_seq (Timeout # evs) snt = teardown fpkt final_seq evs (snt @ [fpkt])"
| "teardown fpkt final_seq (Recv response # evs) snt =
     (let ack_seq = int_from_bytes (take SEQ_SIZE response)
      in case decode (drop SEQ_SIZE response) of
           Inl e \<Rightarrow> Inl e
         | Inr ack_msg \<Rightarrow>
             if ack_msg = str_of ''ack'' \<and> ack_seq = final_seq then
               (case evs of
                  [] \<Rightarrow> Inr (False, snt @ [fpkt], [])
                | Timeout # evs' \<Rightarrow> teardown fpkt final_seq evs' (snt @ [fpkt])
                | Recv fin_response # evs' \<Rightarrow>
                    (case decode (drop SEQ_SIZE fin_response) of
                       Inl e \<Rightarrow> Inl e
                     | Inr fin_msg \<Rightarrow>
                         if fin_msg = str_of ''fin'' then Inr (True, snt @ [fpkt], evs')
                         else teardown fpkt final_seq evs' (snt @ [fpkt])))
             else teardown fpkt final_seq evs (snt @ [fpkt]))"

text \<open>The last lines of \<^verbatim>\<open>transmit_file\<close>: rate, mean delay and score.\<close>

definition metrics :: "nat \<Rightarrow> real \<Rightarrow> real list \<Rightarrow> error + real \<times> real \<times> real" where
  "metrics total_bytes duration ds =
     (if duration = 0 then Inl ZeroDivisionError
      else
        (let rate = real total_bytes / duration;
             mean_delay = (if ds \<noteq> [] then sum_list ds / real (length ds) else 0);
             score = (if mean_delay > 0 then 0.3 * (rate / 1000) + 0.7 / mean_delay else 0)
         in Inr (rate, mean_delay, score)))"

text \<open>
  How a transfer ends within the given events: it raises, it is left waiting in
  \<^verbatim>\<open>recvfrom\<close> with the datagrams sent so far, or it returns the three metrics.
\<close>

datatype outcome =
  Blocked "byte list list"
| Returned "real \<times> real \<times> real" "byte list list"

text \<open>
  \<^verbatim>\<open>transmit_file\<close> for the file contents, chunk size \<open>c\<close>, window \<open>W\<close>, clock and the
  results of the successive \<^verbatim>\<open>recvfrom\<close> calls.  \<open>None\<close>: the segmenter does not return.
\<close>

definition transmit_file ::
  "(nat \<Rightarrow> real) \<Rightarrow> nat \<Rightarrow> nat \<Rightarrow> byte list \<Rightarrow> event list \<Rightarrow> (error + outcome) option" where
  "transmit_file clk c W contents evs =
     (case segmenter c contents of
        None \<Rightarrow> None
      | Some (Inl e) \<Rightarrow> Some (Inl e)
      | Some (Inr pl) \<Rightarrow> Some
          (case main_loop clk W evs (start clk W pl) of
             Inl e \<Rightarrow> Inl e
           | Inr (s, evs1) \<Rightarrow>
               if \<not> all_acked s then Inr (Blocked (sent s))
               else
                 (case final_pkt (length contents) of
                    Inl e \<Rightarrow> Inl e
                  | Inr fpkt \<Rightarrow>
                      (case teardown fpkt (int (length contents)) evs1 (sent s) of
                         Inl e \<Rightarrow> Inl e
                       | Inr (got_fin, snt, evs2) \<Rightarrow>
                           if \<not> got_fin then Inr (Blocked snt)
                           else
                             (case closing of
                                Inl e \<Rightarrow> Inl e
                              | Inr cl \<Rightarrow>
                                  (let finish = clk (ticks s)
                                   in case metrics (length contents) (finish - begin_t s) (delays s) of
                                        Inl e \<Rightarrow> Inl e
                                      | Inr m \<Rightarrow> Inr (Returned m (snt @ [cl]))))))))"

subsection \<open>The stop-and-wait sender\<close>

text \<open>
  The loop \<^verbatim>\<open>while not received_ack\<close> of \<^verbatim>\<open>send_one_packet\<close>; \<open>need\<close> is
  \<^verbatim>\<open>seq_num + len(packet_data)\<close>.  The result is the delay (or \<open>None\<close> when the events
  are used up and the sender waits in \<^verbatim>\<open>recvfrom\<close>), the log, the clock count and the
  events left over.
\<close>

fun send_attempts :: "(nat \<Rightarrow> real) \<Rightarrow> byte list \<Rightarrow> int \<Rightarrow> real \<Rightarrow> event list \<Rightarrow> byte list list \<Rightarrow> nat
                       \<Rightarrow> error + real option \<times> byte list list \<times> nat \<times> event list" where
  "send_attempts clk pkt need start_time [] snt tk = Inr (None, snt @ [pkt], tk, [])"
| "send_attempts clk pkt need start_time (Timeout # evs) snt tk =
     send_attempts clk pkt need start_time evs (snt @ [pkt]) tk"
| "send_attempts clk pkt need start_time (Recv ack_packet # evs) snt tk =
     (let ack_seq_num = int_from_bytes (take SEQ_SIZE ack_packet)
      in case decode (drop SEQ_SIZE ack_packet) of
           Inl e \<Rightarrow> Inl e
         | Inr ack_text \<Rightarrow>
             if ack_text = str_of ''ack'' \<and> ack_seq_num \<ge> need then
               Inr (Some (clk tk - start_time), snt @ [pkt], tk + 1, evs)
             else send_attempts clk pkt need start_time evs (snt @ [pkt]) tk)"

definition send_one_packet ::
  "(nat \<Rightarrow> real) \<Rightarrow> byte list \<Rightarrow> int \<Rightarrow> event list \<Rightarrow> byte list list \<Rightarrow> nat
     \<Rightarrow> error + real option \<times> byte list list \<times> nat \<times> event list" where
  "send_one_packet clk packet_data seq_num evs snt tk =
     (case int_to_bytes seq_num SEQ_SIZE of
        Inl e \<Rightarrow> Inl e
      | Inr hdr \<Rightarrow>
          send_attempts clk (hdr @ packet_data) (seq_num + int (length packet_data))
            (clk tk) evs snt (tk + 1))"

text \<open>The local variables of \<^verbatim>\<open>send_file\<close>, with the log and the clock count.\<close>

record sw_sender =
  all_delays :: "real list"
  current_position :: nat
  packet_count :: nat
  sw_sent :: "byte list list"
  sw_ticks :: nat

text \<open>
  A call of \<^verbatim>\<open>send_one_packet\<close> that returns a delay has consumed at least one event;
  the loop of \<^verbatim>\<open>send_file\<close> below terminates on every finite list of events for
  this reason.
\<close>

lemma send_attempts_shorter:
  "send_attempts clk pkt need st evs snt tk = Inr (Some d, snt', tk', evs') \<Longrightarrow>
   length evs' < length evs"
proof (induction evs arbitrary: snt tk)
  case Nil
  then show ?case by simp
next
  case (Cons ev evs)
  show ?case
  proof (cases ev)
    case Timeout
    with Cons.prems
    have "send_attempts clk pkt need st evs (snt @ [pkt]) tk = Inr (Some d, snt', tk', evs')"
      by simp
    from Cons.IH[OF this] show ?thesis by simp
  next
    case (Recv ack_packet)
    show ?thesis
    proof (cases "send_attempts clk pkt need st evs (snt @ [pkt]) tk = Inr (Some d, snt', tk', evs')")
      case True
      from Cons.IH[OF this] show ?thesis by simp
    next
      case False
      with Cons.prems Recv have "evs' = evs"
        by (auto simp: Let_def split: sum.splits if_splits)
      then show ?thesis by simp
    qed
  qed
qed

lemma send_one_packet_shorter:
  "send_one_packet clk data sq evs snt tk = Inr (Some d, snt', tk', evs') \<Longrightarrow>
   length evs' < length evs"
  by (auto simp: send_one_packet_def split: sum.splits dest: send_attempts_shorter)

text \<open>
  The loop \<^verbatim>\<open>while current_position < file_size\<close> of \<^verbatim>\<open>send_file\<close>, with the chunk
  size a parameter \<open>c\<close> (the script uses \<open>MESSAGE_SIZE = DATA_SIZE\<close>).  The flag of the
  result says whether the loop has ended.
\<close>

function send_chunks ::
  "(nat \<Rightarrow> real) \<Rightarrow> nat \<Rightarrow> byte list \<Rightarrow> event list \<Rightarrow> sw_sender
     \<Rightarrow> error + bool \<times> sw_sender \<times> event list" where
  "send_chunks clk c file_contents evs s =
     (if current_position s < length file_contents then
        (let data_chunk = take c (drop (current_position s) file_contents);
             seq_number = int (current_position s)
         in case send_one_packet clk data_chunk seq_number evs (sw_sent s) (sw_ticks s) of
              Inl e \<Rightarrow> Inl e
            | Inr (None, snt, tk, evs') \<Rightarrow> Inr (False, s\<lparr>sw_sent := snt, sw_ticks := tk\<rparr>, evs')
            | Inr (Some packet_delay, snt, tk, evs') \<Rightarrow>
                send_chunks clk c file_contents evs'
                  (s\<lparr>all_delays := all_delays s @ [packet_delay],
                     current_position := current_position s + length data_chunk,
                     packet_count := packet_count s + 1,
                     sw_sent := snt, sw_ticks := tk\<rparr>))
      else Inr (True, s, evs))"
  by pat_completeness auto
termination
  by (relation "measure (\<lambda>(clk, c, f, evs, s). length evs)")
     (auto dest: send_one_packet_shorter)

declare send_chunks.simps [simp del]

text \<open>The last lines of \<^verbatim>\<open>send_file\<close>: no guard on an empty list or a zero mean.\<close>

definition sw_metrics :: "nat \<Rightarrow> real \<Rightarrow> real list \<Rightarrow> error + real \<times> real \<times> real" where
  "sw_metrics file_size total_time ds =
     (if total_time = 0 then Inl ZeroDivisionError
      else
        (let throughput = real file_size / total_time
         in if length ds = 0 then Inl ZeroDivisionError
            else
              (let avg_delay = sum_list ds / real (length ds)
               in if avg_delay = 0 then Inl ZeroDivisionError
                  else Inr (throughput, avg_delay, 0.3 * (throughput / 1000) + 0.7 / avg_delay))))"

definition send_file ::
  "(nat \<Rightarrow> real) \<Rightarrow> nat \<Rightarrow> byte list \<Rightarrow> event list \<Rightarrow> error + outcome" where
  "send_file clk c file_contents evs =
     (let overall_start = clk 0;
          s0 = \<lparr>all_delays = [], current_position = 0, packet_count = 0,
                 sw_sent = [], sw_ticks = 1\<rparr>
      in case send_chunks clk c file_contents evs s0 of
           Inl e \<Rightarrow> Inl e
         | Inr (finished, s, evs1) \<Rightarrow>
             if \<not> finished then Inr (Blocked (sw_sent s))
             else
               (let final_seq_num = current_position s
                in case final_pkt final_seq_num of
                     Inl e \<Rightarrow> Inl e
                   | Inr empty_packet \<Rightarrow>
                       (case teardown empty_packet (int final_seq_num) evs1 (sw_sent s) of
                          Inl e \<Rightarrow> Inl e
                        | Inr (received_fin, snt, evs2) \<Rightarrow>
                            if \<not> received_fin then Inr (Blocked snt)
                            else
                              (case closing of
                                 Inl e \<Rightarrow> Inl e
                               | Inr finack \<Rightarrow>
                                   (let overall_end = clk (sw_ticks s)
                                    in case sw_metrics (length file_contents)
                                              (overall_end - overall_start) (all_delays s) of
                                         Inl e \<Rightarrow> Inl e
                                       | Inr m \<Rightarrow> Inr (Returned m (snt @ [finack])))))))"

subsection \<open>Auxiliary notions for the statements\<close>

text \<open>
  The four header bytes of an offset, the number of chunks of \<open>m\<close> bytes cut at size
  \<open>c\<close>, and the packet that the segmenter builds at a position.
\<close>

definition hdr_bytes :: "int \<Rightarrow> byte list" where
  "hdr_bytes n = map (\<lambda>i. word_of_int (n div 2 ^ (8 * (SEQ_SIZE - 1 - i)))) [0..<SEQ_SIZE]"

definition nchunks :: "nat \<Rightarrow> nat \<Rightarrow> nat" where
  "nchunks c m = (m + c - 1) div c"

definition packet_at :: "nat \<Rightarrow> byte list \<Rightarrow> nat \<Rightarrow> packet" where
  "packet_at c contents pos =
     new_packet (int pos) (hdr_bytes (int pos) @ take c (drop pos contents)) (take c (drop pos contents))"

text \<open>
  The frames of the peer, after the wire table of the protocol: an ACK echoing an offset
  and a FIN.  \<open>clock_ms\<close> is a clock on which successive readings are one millisecond
  apart; it is used for the concrete runs.
\<close>

definition ack_frame :: "int \<Rightarrow> byte list" where
  "ack_frame a = hdr_bytes a @ bytes_of ''ack''"

definition fin_frame :: "byte list" where
  "fin_frame = hdr_bytes 0 @ bytes_of ''fin''"

definition clock_ms :: "nat \<Rightarrow> real" where
  "clock_ms n = real n / 1000"

section \<open>The header codec\<close>

lemma int_to_bytes_SEQ_SIZE:
  "int_to_bytes n SEQ_SIZE =
     (if - (2 ^ 31) \<le> n \<and> n < 2 ^ 31 then Inr (hdr_bytes n) else Inl OverflowError)"
  by (simp add: int_to_bytes_def hdr_bytes_def SEQ_SIZE_def)

lemma length_hdr_bytes: "length (hdr_bytes n) = SEQ_SIZE"
  by (simp add: hdr_bytes_def)

lemma nchunks_0: "nchunks c 0 = 0"
  by (cases c) (simp_all add: nchunks_def)

lemma nchunks_small: "0 < m \<Longrightarrow> m \<le> c \<Longrightarrow> nchunks c m = 1"
proof -
  assume a: "0 < m" "m \<le> c"
  have e1: "m + c - 1 = (m - 1) + c" using a by arith
  have "((m - 1) + c) div c = (m - 1) div c + 1" using a by (subst div_add_self2) auto
  moreover have "(m - 1) div c = 0" using a by (intro div_less) arith
  ultimately show ?thesis unfolding nchunks_def e1 by (simp only:)
qed

lemma nchunks_step: "0 < c \<Longrightarrow> c \<le> m \<Longrightarrow> nchunks c m = Suc (nchunks c (m - c))"
proof -
  assume a: "0 < c" "c \<le> m"
  have e1: "m + c - 1 = (m - 1) + c" using a by arith
  have e2: "m - c + c - 1 = m - 1" using a by arith
  have "((m - 1) + c) div c = (m - 1) div c + 1" using a by (subst div_add_self2) auto
  then show ?thesis unfolding nchunks_def e1 e2 by (simp only:)
qed

lemma nchunks_pos: "0 < c \<Longrightarrow> 0 < m \<Longrightarrow> 0 < nchunks c m"
proof -
  assume a: "0 < c" "0 < m"
  have "c \<le> m + c - 1" using a by arith
  then have "c div c \<le> (m + c - 1) div c" by (rule div_le_mono)
  then show ?thesis using a by (simp add: nchunks_def)
qed

lemma segment_loop_ok:
  assumes c: "0 < c"
  shows "position \<le> length contents \<Longrightarrow>
         (position < length contents \<longrightarrow>
            position + (nchunks c (length contents - position) - 1) * c < 2 ^ 31) \<Longrightarrow>
         segment_loop c contents position acc =
           Some (Inr (acc @ map (\<lambda>k. packet_at c contents (position + k * c))
                               [0..<nchunks c (length contents - position)]))"
proof (induction "length contents - position" arbitrary: position acc rule: less_induct)
  case less
  show ?case
  proof (cases "position < length contents")
    case False
    with less.prems show ?thesis
      by (subst segment_loop.simps) (simp add: nchunks_0)
  next
    case True
    let ?m = "length contents - position"
    let ?data = "take c (drop position contents)"
    have fit: "int position < 2 ^ 31"
    proof -
      have "position \<le> position + (nchunks c ?m - 1) * c" by simp
      also have "\<dots> < 2 ^ 31" using less.prems True by simp
      finally have "position < 2 ^ 31" .
      then show ?thesis by (metis of_nat_less_iff of_nat_numeral of_nat_power)
    qed
    have hdr: "int_to_bytes (int position) SEQ_SIZE = Inr (hdr_bytes (int position))"
      using fit by (simp add: int_to_bytes_SEQ_SIZE)
    have unfold: "segment_loop c contents position acc =
        segment_loop c contents (position + length ?data)
          (acc @ [packet_at c contents position])"
      using True hdr by (subst segment_loop.simps) (simp add: Let_def packet_at_def)
    show ?thesis
    proof (cases "?m \<le> c")
      case True
      then have len: "position + length ?data = length contents"
        using \<open>position < length contents\<close> by simp
      have n1: "nchunks c ?m = 1"
        using True \<open>position < length contents\<close> by (simp add: nchunks_small)
      have "segment_loop c contents (length contents) (acc @ [packet_at c contents position])
            = Some (Inr (acc @ [packet_at c contents position]))"
        by (subst segment_loop.simps) simp
      then show ?thesis using unfold len n1 by simp
    next
      case False
      then have len: "length ?data = c" by simp
      have step: "nchunks c ?m = Suc (nchunks c (length contents - (position + c)))"
        using False c nchunks_step[of c ?m] by simp
      have lt: "length contents - (position + c) < length contents - position"
        using \<open>position < length contents\<close> c by simp
      have le: "position + c \<le> length contents" using False by simp
      have pos: "0 < nchunks c (length contents - (position + c))"
        using False c by (intro nchunks_pos) auto
      have bound: "position + c < length contents \<longrightarrow>
               position + c + (nchunks c (length contents - (position + c)) - 1) * c < 2 ^ 31"
      proof -
        have "position + c + (nchunks c (length contents - (position + c)) - 1) * c
              = position + (nchunks c ?m - 1) * c"
          using step pos by (cases "nchunks c (length contents - (position + c))") simp_all
        then show ?thesis using less.prems(2) \<open>position < length contents\<close> by simp
      qed
      have ih: "segment_loop c contents (position + c) (acc @ [packet_at c contents position]) =
           Some (Inr ((acc @ [packet_at c contents position]) @
                 map (\<lambda>k. packet_at c contents (position + c + k * c))
                               [0..<nchunks c (length contents - (position + c))]))"
        by (rule less.hyps[OF lt le bound])
      have "map (\<lambda>k. packet_at c contents (position + k * c)) [0..<nchunks c ?m]
            = packet_at c contents position #
              map (\<lambda>k. packet_at c contents (position + c + k * c))
                               [0..<nchunks c (length contents - (position + c))]"
        unfolding step by (simp add: upt_conv_Cons map_Suc_upt[symmetric] add.assoc del: upt_Suc)
      then show ?thesis using unfold len ih by simp
    qed
  qed
qed

lemma split256:
  fixes m :: int
  assumes "0 \<le> k"
  shows "m mod (256 * k) = 256 * (m div 256 mod k) + m mod 256"
  using zmod_zmult2_eq[of k m 256] assms by simp

lemma bytes4_sum:
  fixes n :: int
  shows "((n div 16777216 mod 256 * 256 + n div 65536 mod 256) * 256 + n div 256 mod 256) * 256 + n mod 256
         = n mod 4294967296"
proof -
  define b0 where "b0 = n mod 256"
  define b1 where "b1 = n div 256 mod 256"
  define b2 where "b2 = n div 65536 mod 256"
  define b3 where "b3 = n div 16777216 mod 256"
  have d1: "n div 256 div 256 = n div 65536" 
    by (simp only: zdiv_zmult2_eq[symmetric, of 256 n 256]) simp
  have d2: "n div 65536 div 256 = n div 16777216"
    by (subst zdiv_zmult2_eq[symmetric]) simp_all
  have a: "n mod 4294967296 = 256 * (n div 256 mod 16777216) + b0"
    unfolding b0_def using split256[of 16777216 n] by simp
  have b: "(n div 256) mod 16777216 = 256 * (n div 65536 mod 65536) + b1"
    unfolding b1_def using split256[of 65536 "n div 256"] d1 by simp
  have c: "(n div 65536) mod 65536 = 256 * b3 + b2"
    unfolding b2_def b3_def using split256[of 256 "n div 65536"] d2 by simp
  have "n mod 4294967296 = 256 * (256 * (256 * b3 + b2) + b1) + b0"
    by (simp only: a b c)
  also have "\<dots> = ((b3 * 256 + b2) * 256 + b1) * 256 + b0"
    by (simp only: mult.commute)
  finally show ?thesis
    by (simp only: b0_def b1_def b2_def b3_def)
qed

lemma hdr_bytes_unfold:
  "hdr_bytes n = [word_of_int (n div 16777216), word_of_int (n div 65536),
                  word_of_int (n div 256), word_of_int n]"
proof -
  have upt4: "[0..<4] = [0, 1, 2, 3::nat]"
    by (simp add: upt_conv_Cons)
  show ?thesis
    unfolding hdr_bytes_def SEQ_SIZE_def upt4 by simp
qed

lemma foldl_hdr_bytes:
  "foldl (\<lambda>acc b. acc * 256 + uint b) 0 (hdr_bytes n) = n mod 4294967296"
proof -
  have u: "\<And>k. uint (word_of_int k :: byte) = k mod 256"
    by (simp add: uint_word_of_int)
  show ?thesis
    unfolding hdr_bytes_unfold by (simp only: foldl.simps u bytes4_sum[symmetric]) simp
qed

lemma int_from_bytes_hdr:
  assumes "- (2 ^ 31) \<le> n" "n < 2 ^ 31"
  shows "int_from_bytes (hdr_bytes n) = n"
proof -
  let ?u = "n mod 4294967296"
  have len: "(2::int) ^ (8 * length (hdr_bytes n)) = 4294967296"
    by (simp add: hdr_bytes_def SEQ_SIZE_def)
  have val: "int_from_bytes (hdr_bytes n) = (if 4294967296 \<le> 2 * ?u then ?u - 4294967296 else ?u)"
    unfolding int_from_bytes_def foldl_hdr_bytes len by (simp only: Let_def)
  show ?thesis
  proof (cases "0 \<le> n")
    case True
    then have "?u = n" using assms by simp
    then show ?thesis using val assms by simp
  next
    case False
    then have "?u = n + 4294967296"
      using assms by (simp add: zmod_minus1 mod_pos_neg_trivial  mod_add_self2[symmetric, of n 4294967296] del: mod_add_self2)
    then show ?thesis using val assms False by simp
  qed
qed

lemma segment_loop_overflow:
  assumes c: "0 < c"
  shows "position < length contents \<Longrightarrow>
         2 ^ 31 \<le> position + (nchunks c (length contents - position) - 1) * c \<Longrightarrow>
         segment_loop c contents position acc = Some (Inl OverflowError)"
proof (induction "length contents - position" arbitrary: position acc rule: less_induct)
  case less
  let ?m = "length contents - position"
  let ?data = "take c (drop position contents)"
  show ?case
  proof (cases "position < 2 ^ 31")
    case False
    then have "\<not> int position < 2 ^ 31"
      by (metis of_nat_less_iff of_nat_numeral of_nat_power)
    then have "int_to_bytes (int position) SEQ_SIZE = Inl OverflowError"
      by (simp add: int_to_bytes_SEQ_SIZE)
    then show ?thesis using less.prems(1) by (subst segment_loop.simps) (simp add: Let_def)
  next
    case True
    then have "int position < 2 ^ 31"
      by (metis of_nat_less_iff of_nat_numeral of_nat_power)
    then have hdr: "int_to_bytes (int position) SEQ_SIZE = Inr (hdr_bytes (int position))"
      by (simp add: int_to_bytes_SEQ_SIZE)
    have unfold: "segment_loop c contents position acc =
        segment_loop c contents (position + length ?data)
          (acc @ [packet_at c contents position])"
      using less.prems(1) hdr by (subst segment_loop.simps) (simp add: Let_def packet_at_def)
    have big: "\<not> ?m \<le> c"
    proof
      assume "?m \<le> c"
      then have "nchunks c ?m = 1" using less.prems(1) by (simp add: nchunks_small)
      then show False using less.prems(2) True by simp
    qed
    then have len: "length ?data = c" by simp
    have step: "nchunks c ?m = Suc (nchunks c (length contents - (position + c)))"
      using big c nchunks_step[of c ?m] by simp
    have pos: "0 < nchunks c (length contents - (position + c))"
      using big c by (intro nchunks_pos) auto
    have lt: "length contents - (position + c) < length contents - position"
      using less.prems(1) c by simp
    have lt2: "position + c < length contents" using big by simp
    have "position + c + (nchunks c (length contents - (position + c)) - 1) * c
              = position + (nchunks c ?m - 1) * c"
      using step pos by (cases "nchunks c (length contents - (position + c))") simp_all
    then have bound: "2 ^ 31 \<le> position + c + (nchunks c (length contents - (position + c)) - 1) * c"
      using less.prems(2) by simp
    show ?thesis
      using unfold len less.hyps[OF lt lt2 bound] by simp
  qed
qed

lemma payload_packet_at: "payload (packet_at c contents pos) = take c (drop pos contents)"
  by (simp add: payload_def packet_at_def new_packet_def length_hdr_bytes)

lemma sequence_packet_at: "sequence (packet_at c contents pos) = int pos"
  by (simp add: packet_at_def new_packet_def)

lemma length_f_packet_at:
  "length_f (packet_at c contents pos) = int (length (payload (packet_at c contents pos)))"
  by (simp add: payload_packet_at) (simp add: packet_at_def new_packet_def)

lemma concat_chunks: "concat (map (\<lambda>k. take c (drop (k * c) xs)) [0..<m]) = take (m * c) xs"
proof (induction m)
  case 0
  then show ?case by simp
next
  case (Suc m)
  have "take (m * c) xs @ take c (drop (m * c) xs) = take (m * c + c) xs"
    by (simp add: take_add)
  with Suc show ?case by (simp add: add.commute)
qed

lemma nchunks_covers: "0 < c \<Longrightarrow> m \<le> nchunks c m * c"
proof -
  assume c: "0 < c"
  have "m + c - 1 = (m + c - 1) div c * c + (m + c - 1) mod c" by simp
  moreover have "(m + c - 1) mod c < c" using c by simp
  ultimately have "m + c - 1 < (m + c - 1) div c * c + c" by linarith
  then show ?thesis using c by (simp add: nchunks_def)
qed

lemma nchunks_pred: "0 < c \<Longrightarrow> 0 < m \<Longrightarrow> nchunks c m - Suc 0 = (m - Suc 0) div c"
proof -
  assume a: "0 < c" "0 < m"
  have e1: "m + c - 1 = (m - 1) + c" using a by arith
  have "((m - 1) + c) div c = (m - 1) div c + 1" using a by (subst div_add_self2) auto
  then show ?thesis unfolding nchunks_def e1 by simp
qed

lemma chunk_before_last:
  assumes "0 < c" "Suc i < nchunks c m"
  shows "Suc i * c < m"
proof -
  have m: "0 < m" using assms by (cases m) (simp_all add: nchunks_0)
  have "Suc i \<le> (m - 1) div c" using assms nchunks_pred[OF assms(1) m] by simp
  then have "Suc i * c \<le> (m - 1) div c * c" by (rule mult_le_mono1)
  also have "\<dots> \<le> m - 1" by simp
  finally show ?thesis using m by simp
qed

lemma chunk_in_range:
  assumes "0 < c" "i < nchunks c m"
  shows "i * c < m"
proof (cases i)
  case 0
  then show ?thesis using assms by (cases m) (simp_all add: nchunks_0)
next
  case (Suc j)
  have "Suc j * c < m" using chunk_before_last[of c j m] assms Suc by simp
  then show ?thesis using Suc by simp
qed

lemma segmenter_closed_form:
  assumes "0 < c" "(length contents - 1) div c * c < 2 ^ 31"
  shows "segmenter c contents =
           Some (Inr (map (\<lambda>k. packet_at c contents (k * c)) [0..<nchunks c (length contents)]))"
proof -
  have "0 < length contents \<longrightarrow> 0 + (nchunks c (length contents - 0) - 1) * c < 2 ^ 31"
    using assms by (simp add: nchunks_pred)
  from segment_loop_ok[OF assms(1) _ this, of "[]"] show ?thesis
    by (simp add: segmenter_def)
qed

lemma segmenter_overflow:
  assumes "0 < c" "2 ^ 31 \<le> (length contents - 1) div c * c"
  shows "segmenter c contents = Some (Inl OverflowError)"
proof -
  have pos: "0 < length contents" using assms by (cases "length contents") simp_all
  then have "2 ^ 31 \<le> 0 + (nchunks c (length contents - 0) - 1) * c"
    using assms by (simp add: nchunks_pred)
  from segment_loop_overflow[OF assms(1) pos this] show ?thesis
    by (simp add: segmenter_def)
qed

lemma ceiling_nchunks:
  assumes "0 < c"
  shows "\<lceil>real m / real c\<rceil> = int (nchunks c m)"
proof (cases "m = 0")
  case True
  then show ?thesis by (simp add: nchunks_0)
next
  case False
  define q where "q = (m - 1) div c"
  define r where "r = (m - 1) mod c"
  have m: "m = q * c + r + 1" using False by (simp add: q_def r_def)
  have r: "r < c" using assms by (simp add: r_def)
  have n: "nchunks c m = q + 1" using nchunks_pred[OF assms, of m] False nchunks_pos[OF assms, of m]
    by (simp add: q_def)
  have "real m / real c = real q + (real r + 1) / real c"
    using assms by (simp add: m field_simps)
  moreover have "0 < (real r + 1) / real c" using assms by simp
  moreover have "(real r + 1) / real c \<le> 1" using r assms by simp
  ultimately have "\<lceil>real m / real c\<rceil> = int q + 1"
    by (intro ceiling_unique) simp_all
  then show ?thesis using n by simp
qed

lemma final_pkt_overflow: "2 ^ 31 \<le> total_bytes \<Longrightarrow> final_pkt total_bytes = Inl OverflowError"
proof -
  assume "2 ^ 31 \<le> total_bytes"
  then have "\<not> int total_bytes < 2 ^ 31"
    by (metis of_nat_less_iff of_nat_numeral of_nat_power not_less)
  then show ?thesis by (simp add: final_pkt_def int_to_bytes_SEQ_SIZE)
qed

text \<open>
  Claim C10.  A header is the 4-byte big-endian two's-complement form of the offset:
  encoding raises \<^verbatim>\<open>OverflowError\<close> exactly for the offsets outside
  \<open>[-2^31, 2^31 - 1]\<close>; for an offset in the range, decoding the four bytes gives the
  offset back; for a payload of \<open>2^31\<close> bytes or more the terminal frame cannot be
  encoded, a stop-and-wait data frame at an offset from \<open>2^31\<close> on cannot either, and
  no run of \<^verbatim>\<open>transmit_file\<close> returns its metrics.
\<close>

theorem header_codec_range_roundtrip:
  "(int_to_bytes n SEQ_SIZE = Inl OverflowError \<longleftrightarrow> \<not> (- (2 ^ 31) \<le> n \<and> n \<le> 2 ^ 31 - 1)) \<and>
   (- (2 ^ 31) \<le> n \<and> n \<le> 2 ^ 31 - 1 \<longrightarrow>
      (\<exists>hdr. int_to_bytes n SEQ_SIZE = Inr hdr \<and> length hdr = 4 \<and> int_from_bytes hdr = n)) \<and>
   (2 ^ 31 \<le> total_bytes \<longrightarrow> final_pkt total_bytes = Inl OverflowError) \<and>
   (2 ^ 31 \<le> n \<longrightarrow> send_one_packet clk packet_data n evs snt tk = Inl OverflowError) \<and>
   (2 ^ 31 \<le> total_bytes \<and> length contents = total_bytes \<longrightarrow>
      transmit_file clk c W contents evs \<noteq> Some (Inr (Returned m out)))"
proof (intro conjI impI)
  show "int_to_bytes n SEQ_SIZE = Inl OverflowError \<longleftrightarrow> \<not> (- (2 ^ 31) \<le> n \<and> n \<le> 2 ^ 31 - 1)"
    by (auto simp: int_to_bytes_SEQ_SIZE)
next
  assume r: "- (2 ^ 31) \<le> n \<and> n \<le> 2 ^ 31 - 1"
  then have "int_to_bytes n SEQ_SIZE = Inr (hdr_bytes n)"
    by (simp add: int_to_bytes_SEQ_SIZE)
  moreover have "length (hdr_bytes n) = 4"
    by (simp add: length_hdr_bytes SEQ_SIZE_def)
  moreover have "int_from_bytes (hdr_bytes n) = n"
    using r by (intro int_from_bytes_hdr) simp_all
  ultimately show "\<exists>hdr. int_to_bytes n SEQ_SIZE = Inr hdr \<and> length hdr = 4 \<and> int_from_bytes hdr = n"
    by blast
next
  assume "2 ^ 31 \<le> total_bytes"
  then show "final_pkt total_bytes = Inl OverflowError" by (rule final_pkt_overflow)
next
  assume "2 ^ 31 \<le> n"
  then show "send_one_packet clk packet_data n evs snt tk = Inl OverflowError"
    by (simp add: send_one_packet_def int_to_bytes_SEQ_SIZE)
next
  assume "2 ^ 31 \<le> total_bytes \<and> length contents = total_bytes"
  then have "final_pkt (length contents) = Inl OverflowError"
    by (simp add: final_pkt_overflow)
  then show "transmit_file clk c W contents evs \<noteq> Some (Inr (Returned m out))"
    by (auto simp: transmit_file_def split: option.splits sum.splits prod.splits)
qed

theorem header_codec_range_roundtrip_witness:
  "int_to_bytes 2147483647 SEQ_SIZE = Inr [127, 255, 255, 255] \<and>
   int_from_bytes [127, 255, 255, 255] = 2147483647 \<and>
   int_to_bytes (- 2147483648) SEQ_SIZE = Inr [128, 0, 0, 0] \<and>
   int_from_bytes [128, 0, 0, 0] = - 2147483648 \<and>
   int_to_bytes 2147483648 SEQ_SIZE = Inl OverflowError \<and>
   final_pkt 2147483648 = Inl OverflowError \<and>
   send_one_packet (\<lambda>n. 0) [] 2147483648 [] [] 0 = Inl OverflowError"
proof -
  have a: "int_to_bytes 2147483647 SEQ_SIZE = Inr [127, 255, 255, 255]"
    by (simp add: int_to_bytes_SEQ_SIZE hdr_bytes_unfold)
  have b: "int_to_bytes (- 2147483648) SEQ_SIZE = Inr [128, 0, 0, 0]"
    by (simp add: int_to_bytes_SEQ_SIZE hdr_bytes_unfold)
  show ?thesis
    using header_codec_range_roundtrip[of 2147483647 2147483648]
          header_codec_range_roundtrip[of "- 2147483648" 2147483648]
          header_codec_range_roundtrip[of 2147483648 2147483648 "\<lambda>n. 0" "[]" "[]" "[]" 0]
          a b
    by simp
qed

section \<open>The segmenter\<close>

lemma segmenter_eval_7:
  "segmenter 3 [1, 2, 3, 4, 5, 6, 7] =
     Some (Inr [new_packet 0 [0, 0, 0, 0, 1, 2, 3] [1, 2, 3],
                new_packet 3 [0, 0, 0, 3, 4, 5, 6] [4, 5, 6],
                new_packet 6 [0, 0, 0, 6, 7] [7]])"
  by (simp add: segmenter_def segment_loop.simps int_to_bytes_SEQ_SIZE hdr_bytes_unfold Let_def)

text \<open>
  Claim C2, as the code has it.  The segmenter encodes every offset into a signed 4-byte
  header while it builds the table, so it returns a table exactly when the offset of the
  last chunk is below \<open>2^31\<close>.  For every payload (the empty one included) and every
  positive chunk size within that range: the payloads in table order concatenate to the
  original payload; each offset is the previous offset plus the previous payload length;
  the offsets are strictly increasing and start at 0; no payload is empty (so no trailing
  empty segment) and none is longer than the chunk size; and the table is empty exactly
  for the empty payload.
\<close>

theorem segmenter_roundtrip:
  assumes "0 < c" and "(length contents - 1) div c * c < 2 ^ 31"
  shows "\<exists>pl. segmenter c contents = Some (Inr pl) \<and>
           concat (map payload pl) = contents \<and>
           (\<forall>i. Suc i < length pl \<longrightarrow>
                sequence (pl ! Suc i) = sequence (pl ! i) + int (length (payload (pl ! i)))) \<and>
           sorted_wrt (<) (map sequence pl) \<and>
           (\<forall>p \<in> set pl. payload p \<noteq> [] \<and> length (payload p) \<le> c \<and>
                          length_f p = int (length (payload p))) \<and>
           (pl \<noteq> [] \<longrightarrow> sequence (pl ! 0) = 0) \<and>
           (pl = [] \<longleftrightarrow> contents = [])"
proof -
  let ?n = "length contents"
  let ?m = "nchunks c ?n"
  let ?pl = "map (\<lambda>k. packet_at c contents (k * c)) [0..<?m]"
  have seg: "segmenter c contents = Some (Inr ?pl)"
    using assms by (rule segmenter_closed_form)
  have "map payload ?pl = map (\<lambda>k. take c (drop (k * c) contents)) [0..<?m]"
    by (simp add: payload_packet_at comp_def)
  then have "concat (map payload ?pl) = take (?m * c) contents"
    by (simp only: concat_chunks)
  then have cat: "concat (map payload ?pl) = contents"
    using nchunks_covers[OF assms(1), of ?n] by simp
  have contig: "\<forall>i. Suc i < length ?pl \<longrightarrow>
      sequence (?pl ! Suc i) = sequence (?pl ! i) + int (length (payload (?pl ! i)))"
  proof (intro allI impI)
    fix i assume i: "Suc i < length ?pl"
    then have "Suc i * c < ?n" using chunk_before_last[OF assms(1), of i ?n] by simp
    then have "length (take c (drop (i * c) contents)) = c" by simp
    then show "sequence (?pl ! Suc i) = sequence (?pl ! i) + int (length (payload (?pl ! i)))"
      using i by (simp add: sequence_packet_at payload_packet_at)
  qed
  have "map sequence ?pl = map (\<lambda>k. int (k * c)) [0..<?m]"
    by (simp add: sequence_packet_at comp_def)
  then have incr: "sorted_wrt (<) (map sequence ?pl)"
    using assms(1) by (simp add: sorted_wrt_iff_nth_less)
  have each: "\<forall>p \<in> set ?pl. payload p \<noteq> [] \<and> length (payload p) \<le> c \<and>
                 length_f p = int (length (payload p))"
  proof
    fix p assume "p \<in> set ?pl"
    then obtain k where k: "k < ?m" "p = packet_at c contents (k * c)" by auto
    have "k * c < ?n" using chunk_in_range[OF assms(1) k(1)] .
    then have "take c (drop (k * c) contents) \<noteq> []" using assms(1) by simp
    then show "payload p \<noteq> [] \<and> length (payload p) \<le> c \<and> length_f p = int (length (payload p))"
      using k(2) length_f_packet_at[of c contents "k * c"] by (simp add: payload_packet_at)
  qed
  have first: "?pl \<noteq> [] \<longrightarrow> sequence (?pl ! 0) = 0"
    by (auto simp: sequence_packet_at)
  have empty: "?pl = [] \<longleftrightarrow> contents = []"
  proof (cases "contents = []")
    case True
    then show ?thesis by (simp add: nchunks_0)
  next
    case False
    then have "0 < ?m" using assms(1) by (intro nchunks_pos) simp_all
    with False show ?thesis by simp
  qed
  show ?thesis
    using seg cat contig incr each first empty by blast
qed

theorem segmenter_roundtrip_witness:
  "\<exists>pl. segmenter 3 [1, 2, 3, 4, 5, 6, 7] = Some (Inr pl) \<and>
        concat (map payload pl) = [1, 2, 3, 4, 5, 6, 7] \<and>
        map sequence pl = [0, 3, 6]"
proof -
  have h: "(length [1, 2, 3, 4, 5, 6, 7 :: byte] - 1) div 3 * 3 < 2 ^ 31" by simp
  from segmenter_roundtrip[of 3 "[1, 2, 3, 4, 5, 6, 7]", OF _ h]
  obtain pl where pl: "segmenter 3 [1, 2, 3, 4, 5, 6, 7] = Some (Inr pl)"
      "concat (map payload pl) = [1, 2, 3, 4, 5, 6, 7]"
    by auto
  from pl(1) have "map sequence pl = [0, 3, 6]"
    unfolding segmenter_eval_7 by (auto simp: new_packet_def)
  with pl show ?thesis by (intro exI[of _ pl]) simp
qed

text \<open>
  As stated for every payload, claim C2 fails: on a payload of \<open>2^31 + 1020\<close> bytes the
  script's segmenter raises \<^verbatim>\<open>OverflowError\<close> at the chunk of offset 2147484540 and
  produces no table.
\<close>

theorem segmenter_roundtrip_counterexample:
  "\<not> (\<exists>pl. segmenter DATA_SIZE (replicate 2147484668 0) = Some (Inr pl) \<and>
            concat (map payload pl) = replicate 2147484668 0)"
proof -
  have "segmenter DATA_SIZE (replicate 2147484668 0) = Some (Inl OverflowError)"
    by (rule segmenter_overflow) (simp_all add: DATA_SIZE_def MAX_PACKET_def SEQ_SIZE_def)
  then show ?thesis by simp
qed

text \<open>
  Claim C9, as the code has it.  For every non-empty payload of \<open>n\<close> bytes and chunk
  size \<open>c > 0\<close> whose last chunk offset is below \<open>2^31\<close>, the table has exactly
  \<open>\<lceil>n / c\<rceil>\<close> segments, every segment but the last has a payload of exactly \<open>c\<close>
  bytes, and the last has \<open>n - (\<lceil>n / c\<rceil> - 1) * c\<close> bytes.
\<close>

theorem segmenter_count_and_sizes:
  assumes "0 < c" and "contents \<noteq> []" and "(length contents - 1) div c * c < 2 ^ 31"
  shows "\<exists>pl. segmenter c contents = Some (Inr pl) \<and> pl \<noteq> [] \<and>
           int (length pl) = \<lceil>real (length contents) / real c\<rceil> \<and>
           (\<forall>i. Suc i < length pl \<longrightarrow> length (payload (pl ! i)) = c) \<and>
           length (payload (last pl)) = length contents - (length pl - 1) * c"
proof -
  let ?n = "length contents"
  let ?m = "nchunks c ?n"
  let ?pl = "map (\<lambda>k. packet_at c contents (k * c)) [0..<?m]"
  have seg: "segmenter c contents = Some (Inr ?pl)"
    using assms(1,3) by (rule segmenter_closed_form)
  have m: "0 < ?m" using assms by (intro nchunks_pos) simp_all
  then have ne: "?pl \<noteq> []" by simp
  have cnt: "int (length ?pl) = \<lceil>real ?n / real c\<rceil>"
    using ceiling_nchunks[OF assms(1), of ?n] by simp
  have full: "\<forall>i. Suc i < length ?pl \<longrightarrow> length (payload (?pl ! i)) = c"
  proof (intro allI impI)
    fix i assume i: "Suc i < length ?pl"
    then have "Suc i * c < ?n" using chunk_before_last[OF assms(1), of i ?n] by simp
    then show "length (payload (?pl ! i)) = c" using i by (simp add: payload_packet_at)
  qed
  have "last ?pl = packet_at c contents ((?m - 1) * c)"
    using m by (simp add: last_map last_upt)
  moreover have "?n - (?m - 1) * c \<le> c"
  proof -
    have "?n \<le> ?m * c" using nchunks_covers[OF assms(1)] .
    also have "?m * c = (?m - 1) * c + c" using m by (cases ?m) simp_all
    finally show ?thesis by simp
  qed
  ultimately have lst: "length (payload (last ?pl)) = ?n - (length ?pl - 1) * c"
    by (simp add: payload_packet_at)
  show ?thesis using seg ne cnt full lst by blast
qed

theorem segmenter_count_and_sizes_witness:
  "\<exists>pl. segmenter 3 [1, 2, 3, 4, 5, 6, 7] = Some (Inr pl) \<and>
        int (length pl) = \<lceil>real (length [1, 2, 3, 4, 5, 6, 7 :: byte]) / real (3 :: nat)\<rceil> \<and>
        length pl = 3 \<and> length (payload (last pl)) = 1"
proof -
  have h: "(length [1, 2, 3, 4, 5, 6, 7 :: byte] - 1) div 3 * 3 < 2 ^ 31" by simp
  from segmenter_count_and_sizes[of 3 "[1, 2, 3, 4, 5, 6, 7]", OF _ _ h]
  obtain pl where pl: "segmenter 3 [1, 2, 3, 4, 5, 6, 7] = Some (Inr pl)"
      "int (length pl) = \<lceil>real (length [1, 2, 3, 4, 5, 6, 7 :: byte]) / real (3 :: nat)\<rceil>"
    by auto
  from pl(1) have "length pl = 3 \<and> length (payload (last pl)) = 1"
    unfolding segmenter_eval_7 by (auto simp: new_packet_def payload_def SEQ_SIZE_def)
  with pl show ?thesis by (intro exI[of _ pl]) simp
qed

text \<open>
  As stated for every non-empty payload, claim C9 fails: for a payload of 3000000000
  bytes the script's segmenter raises \<^verbatim>\<open>OverflowError\<close> and produces no segments.
\<close>

theorem segmenter_count_and_sizes_counterexample:
  "\<not> (\<exists>pl. segmenter DATA_SIZE (replicate 3000000000 0) = Some (Inr pl) \<and>
            int (length pl) = \<lceil>real (length (replicate 3000000000 (0 :: byte))) / real DATA_SIZE\<rceil>)"
proof -
  have "segmenter DATA_SIZE (replicate 3000000000 0) = Some (Inl OverflowError)"
    by (rule segmenter_overflow) (simp_all add: DATA_SIZE_def MAX_PACKET_def SEQ_SIZE_def)
  then show ?thesis by simp
qed

section \<open>Frames of the peer\<close>

lemma decode_ack: "decode (bytes_of ''ack'') = Inr (str_of ''ack'')"
  by (simp add: decode_def bytes_of_def str_of_def utf8_lead_def)

lemma decode_fin: "decode (bytes_of ''fin'') = Inr (str_of ''fin'')"
  by (simp add: decode_def bytes_of_def str_of_def utf8_lead_def)

lemma fin_not_ack: "str_of ''fin'' \<noteq> str_of ''ack''"
  by (simp add: str_of_def)

lemma take_ack_frame: "take SEQ_SIZE (ack_frame a) = hdr_bytes a"
  by (simp add: ack_frame_def length_hdr_bytes)

lemma drop_ack_frame: "drop SEQ_SIZE (ack_frame a) = bytes_of ''ack''"
  by (simp add: ack_frame_def length_hdr_bytes)

lemma drop_fin_frame: "drop SEQ_SIZE fin_frame = bytes_of ''fin''"
  by (simp add: fin_frame_def length_hdr_bytes)

lemma take_fin_frame: "take SEQ_SIZE fin_frame = hdr_bytes 0"
  by (simp add: fin_frame_def length_hdr_bytes)

lemma hdr_bytes_0: "hdr_bytes 0 = [0, 0, 0, 0]"
  by (simp add: hdr_bytes_unfold)

lemma final_pkt_0: "final_pkt 0 = Inr [0, 0, 0, 0]"
  by (simp add: final_pkt_def int_to_bytes_SEQ_SIZE hdr_bytes_0)

lemma closing_value: "closing = Inr ([0, 0, 0, 0] @ bytes_of ''==FINACK=='')"
  by (simp add: closing_def int_to_bytes_SEQ_SIZE hdr_bytes_0)

lemma segmenter_empty: "segmenter c [] = Some (Inr [])"
  by (simp add: segmenter_def segment_loop.simps)

section \<open>Metrics\<close>

lemma metrics_guarded:
  assumes "duration \<noteq> 0"
  shows "\<exists>rate mean_delay score.
           metrics total_bytes duration ds = Inr (rate, mean_delay, score) \<and>
           rate = real total_bytes / duration \<and>
           mean_delay = (if ds = [] then 0 else sum_list ds / real (length ds)) \<and>
           score = (if mean_delay > 0 then 0.3 * (rate / 1000) + 0.7 / mean_delay else 0)"
  using assms by (simp add: metrics_def Let_def)

lemma send_chunks_empty:
  "send_chunks clk c [] evs s = Inr (True, s, evs)"
  by (simp add: send_chunks.simps)

lemma teardown_ack_fin:
  "teardown [0, 0, 0, 0] 0 [Recv (ack_frame 0), Recv fin_frame] snt = Inr (True, snt @ [[0, 0, 0, 0]], [])"
  by (simp add: take_ack_frame drop_ack_frame drop_fin_frame decode_ack decode_fin
        int_from_bytes_hdr)

text \<open>
  Claim C5 (a defect of the stop-and-wait script).  \<^verbatim>\<open>send_file\<close> has no guard around
  its two divisions: on an empty file, with a peer that answers the terminal frame with
  ACK 0 and FIN, it raises \<^verbatim>\<open>ZeroDivisionError\<close> instead of returning a mean delay of 0
  and a score of 0.  In general its metrics raise whenever there is no delay sample.
\<close>

theorem stop_and_wait_metrics_raise:
  "send_file clk c [] [Recv (ack_frame 0), Recv fin_frame] = Inl ZeroDivisionError \<and>
   sw_metrics file_size total_time [] = Inl ZeroDivisionError"
proof
  have "sw_metrics (length ([] :: byte list)) (clk 1 - clk 0) [] = Inl ZeroDivisionError"
    by (simp add: sw_metrics_def)
  then show "send_file clk c [] [Recv (ack_frame 0), Recv fin_frame] = Inl ZeroDivisionError"
    by (simp add: send_file_def send_chunks_empty final_pkt_0 teardown_ack_fin closing_value
          del: teardown.simps)
  show "sw_metrics file_size total_time [] = Inl ZeroDivisionError"
    by (simp add: sw_metrics_def)
qed

text \<open>
  The sliding window script guards both: on the same input it returns three zeros, for
  every clock on which the transfer takes some time.
\<close>

lemma transmit_file_empty:
  assumes "clk 2 \<noteq> clk 0"
  shows "transmit_file clk c W [] [Recv (ack_frame 0), Recv fin_frame] =
           Some (Inr (Returned (0, 0, 0) [[0, 0, 0, 0], [0, 0, 0, 0] @ bytes_of ''==FINACK=='']))"
proof -
  have st: "start clk W [] = \<lparr>packet_list = [], begin_t = clk 0, left_edge = 0, send_next = 0,
                delays = [], last_check = clk 1, total_acks = 0, resends = 0,
                sent = [], ticks = 2\<rparr>"
    by (simp add: start_def Let_def)
  have ml: "main_loop clk W evs (start clk W []) = Inr (start clk W [], evs)" for evs
    by (cases evs) (simp_all add: st all_acked_def)
  have m: "metrics 0 (clk 2 - clk 0) [] = Inr (0, 0, 0)"
    using assms by (simp add: metrics_def)
  show ?thesis
    unfolding transmit_file_def
    by (simp add: segmenter_empty ml final_pkt_0 teardown_ack_fin closing_value
          del: teardown.simps)
       (simp add: st all_acked_def m)
qed

section \<open>Malformed frames\<close>

lemma decode_empty: "decode [] = Inr []"
  by (simp add: decode_def)

lemma str_ack_nonempty: "str_of ''ack'' \<noteq> []"
  by (simp add: str_of_def)

lemma decode_invalid: "decode [0xFF] = Inl UnicodeDecodeError"
  by (simp add: decode_def utf8_lead_def)

text \<open>
  Claim C4, as the code has it.  In the data phase a frame shorter than the header, or
  one whose body decodes to a text other than \<open>ack\<close>, is dropped silently: the pass of
  the loop is the pass of a timeout, except that the counter \<open>total_acks\<close> has grown.
  A frame whose body is not valid UTF-8 makes \<^verbatim>\<open>decode\<close> raise, and the exception leaves
  the loop (and the teardown loop, and \<^verbatim>\<open>send_one_packet\<close>): nothing catches it.
\<close>

theorem malformed_frame_handling:
  "(length response < SEQ_SIZE \<longrightarrow>
      loop_iter clk W (Recv response) s = Inr (timer_check clk W (s\<lparr>total_acks := total_acks s + 1\<rparr>))) \<and>
   (decode (drop SEQ_SIZE response) = Inr msg \<and> msg \<noteq> str_of ''ack'' \<longrightarrow>
      loop_iter clk W (Recv response) s = Inr (timer_check clk W (s\<lparr>total_acks := total_acks s + 1\<rparr>))) \<and>
   loop_iter clk W Timeout s = Inr (timer_check clk W s) \<and>
   (decode (drop SEQ_SIZE response) = Inl e \<longrightarrow>
      loop_iter clk W (Recv response) s = Inl e \<and>
      (\<not> all_acked s \<longrightarrow> main_loop clk W (Recv response # evs) s = Inl e) \<and>
      teardown fpkt final_seq (Recv response # evs) snt = Inl e \<and>
      send_attempts clk pkt need st (Recv response # evs) snt tk = Inl e)"
proof (intro conjI impI)
  assume "length response < SEQ_SIZE"
  then have "drop SEQ_SIZE response = []" by simp
  then show "loop_iter clk W (Recv response) s =
      Inr (timer_check clk W (s\<lparr>total_acks := total_acks s + 1\<rparr>))"
    using str_ack_nonempty by (auto simp: loop_iter_def decode_empty Let_def)
next
  assume "decode (drop SEQ_SIZE response) = Inr msg \<and> msg \<noteq> str_of ''ack''"
  then show "loop_iter clk W (Recv response) s =
      Inr (timer_check clk W (s\<lparr>total_acks := total_acks s + 1\<rparr>))"
    by (simp add: loop_iter_def Let_def)
next
  show "loop_iter clk W Timeout s = Inr (timer_check clk W s)"
    by (simp add: loop_iter_def)
next
  assume d: "decode (drop SEQ_SIZE response) = Inl e"
  then show li: "loop_iter clk W (Recv response) s = Inl e"
    by (simp add: loop_iter_def Let_def)
  show "teardown fpkt final_seq (Recv response # evs) snt = Inl e"
    using d by simp
  show "send_attempts clk pkt need st (Recv response # evs) snt tk = Inl e"
    using d by simp
  assume "\<not> all_acked s"
  then show "main_loop clk W (Recv response # evs) s = Inl e"
    using li by simp
qed

theorem malformed_frame_handling_witness:
  "loop_iter clock_ms WINDOW (Recv [0, 0]) (start clock_ms WINDOW [])
     = Inr (timer_check clock_ms WINDOW ((start clock_ms WINDOW [])\<lparr>total_acks := 1\<rparr>)) \<and>
   loop_iter clock_ms WINDOW (Recv fin_frame) (start clock_ms WINDOW [])
     = Inr (timer_check clock_ms WINDOW ((start clock_ms WINDOW [])\<lparr>total_acks := 1\<rparr>)) \<and>
   loop_iter clock_ms WINDOW (Recv [0, 0, 0, 0, 0xFF]) (start clock_ms WINDOW [])
     = Inl UnicodeDecodeError"
proof -
  have t: "total_acks (start clock_ms WINDOW []) = 0"
    by (simp add: start_def Let_def)
  have d: "decode (drop SEQ_SIZE [0, 0, 0, 0, 0xFF]) = Inl UnicodeDecodeError"
    by (simp add: SEQ_SIZE_def decode_invalid)
  have f: "decode (drop SEQ_SIZE fin_frame) = Inr (str_of ''fin'') \<and> str_of ''fin'' \<noteq> str_of ''ack''"
    by (simp add: drop_fin_frame decode_fin fin_not_ack)
  have l: "length [0, 0 :: byte] < SEQ_SIZE" by (simp add: SEQ_SIZE_def)
  show ?thesis
    using malformed_frame_handling[of "[0, 0]" clock_ms WINDOW "start clock_ms WINDOW []"] l
          malformed_frame_handling[of fin_frame clock_ms WINDOW "start clock_ms WINDOW []" "str_of ''fin''"] f
          malformed_frame_handling[of "[0, 0, 0, 0, 0xFF]" clock_ms WINDOW "start clock_ms WINDOW []" _ UnicodeDecodeError] d
          t
    by (simp del: loop_iter_def)
qed

lemma DATA_SIZE_value: "DATA_SIZE = 1020"
  by (simp add: DATA_SIZE_def MAX_PACKET_def SEQ_SIZE_def)

lemma segmenter_3_bytes:
  "segmenter DATA_SIZE [1, 2, 3] = Some (Inr [new_packet 0 [0, 0, 0, 0, 1, 2, 3] [1, 2, 3]])"
  unfolding DATA_SIZE_value
  by (simp add: segmenter_def segment_loop.simps int_to_bytes_SEQ_SIZE hdr_bytes_unfold Let_def)

text \<open>
  As stated, claim C4 fails: with one 3-byte packet outstanding, a received frame whose
  body is the single byte \<open>0xFF\<close> ends \<^verbatim>\<open>transmit_file\<close> with \<^verbatim>\<open>UnicodeDecodeError\<close>.
\<close>

theorem malformed_frame_counterexample:
  "transmit_file clock_ms DATA_SIZE WINDOW [1, 2, 3] [Recv [0, 0, 0, 0, 0xFF]]
     = Some (Inl UnicodeDecodeError)"
proof -
  let ?s = "start clock_ms WINDOW [new_packet 0 [0, 0, 0, 0, 1, 2, 3] [1, 2, 3]]"
  have "\<not> list_all is_acked (packet_list ?s)"
    by (simp add: start_def Let_def WINDOW_def send_first_def new_packet_def)
  then have na: "\<not> all_acked ?s"
    by (simp add: all_acked_def)
  have d: "decode (drop SEQ_SIZE [0, 0, 0, 0, 0xFF]) = Inl UnicodeDecodeError"
    by (simp add: SEQ_SIZE_def decode_invalid)
  have "main_loop clock_ms WINDOW [Recv [0, 0, 0, 0, 0xFF]] ?s = Inl UnicodeDecodeError"
    using na d by (simp add: loop_iter_def Let_def)
  then show ?thesis
    by (simp add: transmit_file_def segmenter_3_bytes del: main_loop.simps)
qed

section \<open>Teardown\<close>

lemma teardown_unmatched:
  assumes "decode (drop SEQ_SIZE response) = Inr msg"
    and "msg \<noteq> str_of ''ack'' \<or> int_from_bytes (take SEQ_SIZE response) \<noteq> fs"
  shows "teardown fpkt fs (Recv response # evs) snt = teardown fpkt fs evs (snt @ [fpkt])"
  using assms by (auto simp: Let_def)

lemma teardown_matched_timeout:
  assumes "decode (drop SEQ_SIZE response) = Inr (str_of ''ack'')"
    and "int_from_bytes (take SEQ_SIZE response) = fs"
  shows "teardown fpkt fs (Recv response # Timeout # evs) snt = teardown fpkt fs evs (snt @ [fpkt])"
  using assms by (simp add: Let_def)

lemma teardown_matched_fin:
  assumes "decode (drop SEQ_SIZE response) = Inr (str_of ''ack'')"
    and "int_from_bytes (take SEQ_SIZE response) = fs"
    and "decode (drop SEQ_SIZE fin_response) = Inr (str_of ''fin'')"
  shows "teardown fpkt fs (Recv response # Recv fin_response # evs) snt = Inr (True, snt @ [fpkt], evs)"
  using assms by (simp add: Let_def)

lemma teardown_matched_other:
  assumes "decode (drop SEQ_SIZE response) = Inr (str_of ''ack'')"
    and "int_from_bytes (take SEQ_SIZE response) = fs"
    and "decode (drop SEQ_SIZE fin_response) = Inr msg" and "msg \<noteq> str_of ''fin''"
  shows "teardown fpkt fs (Recv response # Recv fin_response # evs) snt
           = teardown fpkt fs evs (snt @ [fpkt])"
  using assms by (simp add: Let_def)

lemma teardown_cases:
  assumes "teardown fpkt fs evs snt = Inr (got, snt', rest)"
  shows "snt' = snt @ [fpkt] \<or>
         (\<exists>evs'. length evs' < length evs \<and>
                 teardown fpkt fs evs' (snt @ [fpkt]) = Inr (got, snt', rest))"
proof (cases evs)
  case Nil
  with assms show ?thesis by simp
next
  case (Cons ev evs1)
  have rec: ?thesis
    if "teardown fpkt fs evs snt = teardown fpkt fs evs' (snt @ [fpkt])"
      and "length evs' < length evs" for evs'
    using that assms by (intro disjI2 exI[of _ evs']) simp
  show ?thesis
  proof (cases ev)
    case Timeout
    with Cons show ?thesis by (intro rec[of evs1]) simp_all
  next
    case (Recv response)
    from assms Cons Recv obtain msg where d: "decode (drop SEQ_SIZE response) = Inr msg"
      by (cases "decode (drop SEQ_SIZE response)") (simp_all add: Let_def)
    show ?thesis
    proof (cases "msg = str_of ''ack'' \<and> int_from_bytes (take SEQ_SIZE response) = fs")
      case False
      then have "teardown fpkt fs evs snt = teardown fpkt fs evs1 (snt @ [fpkt])"
        unfolding Cons Recv using d by (intro teardown_unmatched) auto
      then show ?thesis using Cons by (intro rec[of evs1]) simp_all
    next
      case True
      then have m: "decode (drop SEQ_SIZE response) = Inr (str_of ''ack'')"
         "int_from_bytes (take SEQ_SIZE response) = fs" using d by simp_all
      show ?thesis
      proof (cases evs1)
        case Nil
        with Cons Recv assms m show ?thesis by (simp add: Let_def)
      next
        case c2: (Cons ev2 evs2)
        show ?thesis
        proof (cases ev2)
          case Timeout
          then have "teardown fpkt fs evs snt = teardown fpkt fs evs2 (snt @ [fpkt])"
            unfolding Cons Recv c2 using m by (simp only: teardown_matched_timeout)
          then show ?thesis using Cons c2 by (intro rec[of evs2]) simp_all
        next
          case r2: (Recv fin_response)
          from assms Cons Recv c2 r2 m obtain msg2
            where d2: "decode (drop SEQ_SIZE fin_response) = Inr msg2"
            by (cases "decode (drop SEQ_SIZE fin_response)") (simp_all add: Let_def)
          show ?thesis
          proof (cases "msg2 = str_of ''fin''")
            case True
            then have "teardown fpkt fs evs snt = Inr (True, snt @ [fpkt], evs2)"
              unfolding Cons Recv c2 r2 using m d2 by (simp only: teardown_matched_fin)
            with assms show ?thesis by simp
          next
            case False
            then have "teardown fpkt fs evs snt = teardown fpkt fs evs2 (snt @ [fpkt])"
              unfolding Cons Recv c2 r2 using m d2 teardown_matched_other by blast
            then show ?thesis using Cons c2 by (intro rec[of evs2]) simp_all
          qed
        qed
      qed
    qed
  qed
qed

lemma teardown_log:
  "teardown fpkt fs evs snt = Inr (got, snt', rest) \<Longrightarrow> \<exists>k. snt' = snt @ replicate (Suc k) fpkt"
proof (induction "length evs" arbitrary: evs snt rule: less_induct)
  case less
  from teardown_cases[OF less.prems] show ?case
  proof
    assume "snt' = snt @ [fpkt]"
    then show ?thesis by (intro exI[of _ 0]) simp
  next
    assume "\<exists>evs'. length evs' < length evs \<and>
                 teardown fpkt fs evs' (snt @ [fpkt]) = Inr (got, snt', rest)"
    then obtain evs' where e: "length evs' < length evs"
        "teardown fpkt fs evs' (snt @ [fpkt]) = Inr (got, snt', rest)" by blast
    from less.hyps[OF e] obtain k where "snt' = (snt @ [fpkt]) @ replicate (Suc k) fpkt"
      by blast
    then have "snt' = snt @ replicate (Suc (Suc k)) fpkt" by simp
    then show ?thesis by blast
  qed
qed

lemma final_pkt_value:
  "final_pkt total_bytes = Inr fpkt \<Longrightarrow> fpkt = hdr_bytes (int total_bytes) \<and> int (total_bytes) < 2 ^ 31"
  by (auto simp: final_pkt_def int_to_bytes_SEQ_SIZE split: if_splits)

lemma transmit_file_returned:
  assumes "transmit_file clk c W contents evs = Some (Inr (Returned m out))"
  shows "\<exists>pl s rest k. segmenter c contents = Some (Inr pl) \<and>
           main_loop clk W evs (start clk W pl) = Inr (s, rest) \<and> all_acked s \<and>
           out = sent s @ replicate (Suc k) (hdr_bytes (int (length contents)))
                   @ [hdr_bytes 0 @ bytes_of ''==FINACK=='']"
proof -
  from assms obtain pl where pl: "segmenter c contents = Some (Inr pl)"
    by (auto simp: transmit_file_def split: option.splits sum.splits)
  from assms pl obtain s rest where ml: "main_loop clk W evs (start clk W pl) = Inr (s, rest)"
    by (auto simp: transmit_file_def split: sum.splits)
  from assms pl ml have acked: "all_acked s"
    by (auto simp: transmit_file_def split: if_splits)
  from assms pl ml acked obtain fpkt where fp: "final_pkt (length contents) = Inr fpkt"
    by (auto simp: transmit_file_def split: sum.splits)
  from assms pl ml acked fp obtain got snt evs2
    where td: "teardown fpkt (int (length contents)) rest (sent s) = Inr (got, snt, evs2)"
    by (auto simp: transmit_file_def split: sum.splits)
  from assms pl ml acked fp td have out: "got" "out = snt @ [hdr_bytes 0 @ bytes_of ''==FINACK=='']"
    by (auto simp: transmit_file_def closing_value hdr_bytes_0 Let_def split: if_splits sum.splits)
  from teardown_log[OF td] obtain k where "snt = sent s @ replicate (Suc k) fpkt" by blast
  moreover have "fpkt = hdr_bytes (int (length contents))"
    using final_pkt_value[OF fp] by simp
  ultimately have "out = sent s @ replicate (Suc k) (hdr_bytes (int (length contents)))
                   @ [hdr_bytes 0 @ bytes_of ''==FINACK=='']"
    using out by simp
  with pl ml acked show ?thesis by blast
qed

lemma transmit_file_blocked:
  assumes "transmit_file clk c W contents evs = Some (Inr (Blocked out))"
  shows "\<exists>pl s rest. segmenter c contents = Some (Inr pl) \<and>
           main_loop clk W evs (start clk W pl) = Inr (s, rest) \<and>
           (if all_acked s
            then \<exists>k. out = sent s @ replicate (Suc k) (hdr_bytes (int (length contents)))
            else out = sent s)"
proof -
  from assms obtain pl where pl: "segmenter c contents = Some (Inr pl)"
    by (auto simp: transmit_file_def split: option.splits sum.splits)
  from assms pl obtain s rest where ml: "main_loop clk W evs (start clk W pl) = Inr (s, rest)"
    by (auto simp: transmit_file_def split: sum.splits)
  show ?thesis
  proof (cases "all_acked s")
    case False
    with assms pl ml have "out = sent s" by (simp add: transmit_file_def)
    with pl ml False show ?thesis by auto
  next
    case True
    from assms pl ml True obtain fpkt where fp: "final_pkt (length contents) = Inr fpkt"
      by (auto simp: transmit_file_def split: sum.splits)
    from assms pl ml True fp obtain got snt evs2
      where td: "teardown fpkt (int (length contents)) rest (sent s) = Inr (got, snt, evs2)"
      by (auto simp: transmit_file_def split: sum.splits)
    from assms pl ml True fp td have "out = snt"
      by (auto simp: transmit_file_def Let_def split: if_splits sum.splits)
    moreover from teardown_log[OF td] obtain k where "snt = sent s @ replicate (Suc k) fpkt" by blast
    moreover have "fpkt = hdr_bytes (int (length contents))"
      using final_pkt_value[OF fp] by simp
    ultimately have "\<exists>k. out = sent s @ replicate (Suc k) (hdr_bytes (int (length contents)))"
      by blast
    with pl ml True show ?thesis by auto
  qed
qed

text \<open>
  Claim C7, as the code has it.  The terminal frame is the header of the total payload
  length with an empty body.  Each pass of the teardown loop sends it and waits for one
  frame.  A timeout, a frame that is not an ACK echoing exactly that length, or a
  matching ACK followed by a timeout or by a frame other than FIN, ends the pass, and the
  next pass starts over: it resends the terminal frame and again needs a matching ACK
  first.  Only a FIN that is received directly after a matching ACK in the same pass ends
  the loop.  Whatever the events, the frames sent by the loop are terminal frames, at
  least one.  A transfer that returns has acknowledged every packet, then sent one or
  more terminal frames, then exactly one FINACK frame (header 0, body \<open>==FINACK==\<close>),
  which is the last frame of its log; a transfer that has not returned has sent no frame
  after its data frames other than terminal frames.
\<close>

theorem teardown_handshake:
  "(final_pkt total_bytes = Inr fpkt' \<longrightarrow>
      fpkt' = hdr_bytes (int total_bytes) \<and> drop SEQ_SIZE fpkt' = [] \<and>
      int_from_bytes (take SEQ_SIZE fpkt') = int total_bytes) \<and>
   teardown fpkt fs (Timeout # evs) snt = teardown fpkt fs evs (snt @ [fpkt]) \<and>
   (decode (drop SEQ_SIZE response) = Inr msg \<and>
    (msg \<noteq> str_of ''ack'' \<or> int_from_bytes (take SEQ_SIZE response) \<noteq> fs) \<longrightarrow>
      teardown fpkt fs (Recv response # evs) snt = teardown fpkt fs evs (snt @ [fpkt])) \<and>
   (decode (drop SEQ_SIZE response) = Inr (str_of ''ack'') \<and>
    int_from_bytes (take SEQ_SIZE response) = fs \<longrightarrow>
      teardown fpkt fs (Recv response # Timeout # evs) snt = teardown fpkt fs evs (snt @ [fpkt]) \<and>
      (decode (drop SEQ_SIZE fin_response) = Inr (str_of ''fin'') \<longrightarrow>
         teardown fpkt fs (Recv response # Recv fin_response # evs) snt
           = Inr (True, snt @ [fpkt], evs)) \<and>
      (decode (drop SEQ_SIZE fin_response) = Inr msg2 \<and> msg2 \<noteq> str_of ''fin'' \<longrightarrow>
         teardown fpkt fs (Recv response # Recv fin_response # evs) snt
           = teardown fpkt fs evs (snt @ [fpkt]))) \<and>
   (teardown fpkt fs evs snt = Inr (got, snt', rest) \<longrightarrow>
      (\<exists>k. snt' = snt @ replicate (Suc k) fpkt)) \<and>
   (transmit_file clk c W contents evs = Some (Inr (Returned m out)) \<longrightarrow>
      (\<exists>pl s rest k. segmenter c contents = Some (Inr pl) \<and>
           main_loop clk W evs (start clk W pl) = Inr (s, rest) \<and> all_acked s \<and>
           out = sent s @ replicate (Suc k) (hdr_bytes (int (length contents)))
                   @ [hdr_bytes 0 @ bytes_of ''==FINACK==''])) \<and>
   (transmit_file clk c W contents evs = Some (Inr (Blocked out)) \<longrightarrow>
      (\<exists>pl s rest. segmenter c contents = Some (Inr pl) \<and>
           main_loop clk W evs (start clk W pl) = Inr (s, rest) \<and>
           (if all_acked s
            then \<exists>k. out = sent s @ replicate (Suc k) (hdr_bytes (int (length contents)))
            else out = sent s)))"
proof (intro conjI impI)
  assume fp: "final_pkt total_bytes = Inr fpkt'"
  from final_pkt_value[OF this] show "fpkt' = hdr_bytes (int total_bytes)" by simp
  then show "drop SEQ_SIZE fpkt' = []" by (simp add: length_hdr_bytes)
  show "int_from_bytes (take SEQ_SIZE fpkt') = int total_bytes"
    using final_pkt_value[OF fp] by (simp add: length_hdr_bytes int_from_bytes_hdr)
next
  show "teardown fpkt fs (Timeout # evs) snt = teardown fpkt fs evs (snt @ [fpkt])" by simp
next
  assume "decode (drop SEQ_SIZE response) = Inr msg \<and>
    (msg \<noteq> str_of ''ack'' \<or> int_from_bytes (take SEQ_SIZE response) \<noteq> fs)"
  then show "teardown fpkt fs (Recv response # evs) snt = teardown fpkt fs evs (snt @ [fpkt])"
    using teardown_unmatched by blast
next
  assume m: "decode (drop SEQ_SIZE response) = Inr (str_of ''ack'') \<and>
    int_from_bytes (take SEQ_SIZE response) = fs"
  then show "teardown fpkt fs (Recv response # Timeout # evs) snt
      = teardown fpkt fs evs (snt @ [fpkt])"
    using teardown_matched_timeout by blast
  {
    assume "decode (drop SEQ_SIZE fin_response) = Inr (str_of ''fin'')"
    with m show "teardown fpkt fs (Recv response # Recv fin_response # evs) snt
           = Inr (True, snt @ [fpkt], evs)"
      using teardown_matched_fin by blast
  }
  {
    assume "decode (drop SEQ_SIZE fin_response) = Inr msg2 \<and> msg2 \<noteq> str_of ''fin''"
    with m show "teardown fpkt fs (Recv response # Recv fin_response # evs) snt
           = teardown fpkt fs evs (snt @ [fpkt])"
      using teardown_matched_other by blast
  }
next
  assume "teardown fpkt fs evs snt = Inr (got, snt', rest)"
  then show "\<exists>k. snt' = snt @ replicate (Suc k) fpkt" by (rule teardown_log)
next
  assume "transmit_file clk c W contents evs = Some (Inr (Returned m out))"
  then show "\<exists>pl s rest k. segmenter c contents = Some (Inr pl) \<and>
           main_loop clk W evs (start clk W pl) = Inr (s, rest) \<and> all_acked s \<and>
           out = sent s @ replicate (Suc k) (hdr_bytes (int (length contents)))
                   @ [hdr_bytes 0 @ bytes_of ''==FINACK=='']"
    by (rule transmit_file_returned)
next
  assume "transmit_file clk c W contents evs = Some (Inr (Blocked out))"
  then show "\<exists>pl s rest. segmenter c contents = Some (Inr pl) \<and>
           main_loop clk W evs (start clk W pl) = Inr (s, rest) \<and>
           (if all_acked s
            then \<exists>k. out = sent s @ replicate (Suc k) (hdr_bytes (int (length contents)))
            else out = sent s)"
    by (rule transmit_file_blocked)
qed

lemma ack_frame_10: "ack_frame 10 = [0, 0, 0, 10] @ bytes_of ''ack''"
  by (simp add: ack_frame_def hdr_bytes_unfold)

theorem teardown_handshake_witness:
  "final_pkt 10 = Inr [0, 0, 0, 10] \<and>
   teardown [0, 0, 0, 10] 10 [Timeout, Recv (ack_frame 10), Recv fin_frame] []
     = Inr (True, [[0, 0, 0, 10], [0, 0, 0, 10]], []) \<and>
   teardown [0, 0, 0, 10] 10 [Recv fin_frame, Recv (ack_frame 10), Timeout] []
     = Inr (False, [[0, 0, 0, 10], [0, 0, 0, 10], [0, 0, 0, 10]], [])"
proof -
  have f: "final_pkt 10 = Inr [0, 0, 0, 10]"
    by (simp add: final_pkt_def int_to_bytes_SEQ_SIZE hdr_bytes_unfold)
  have a: "decode (drop SEQ_SIZE (ack_frame 10)) = Inr (str_of ''ack'') \<and>
           int_from_bytes (take SEQ_SIZE (ack_frame 10)) = 10"
    by (simp add: drop_ack_frame take_ack_frame decode_ack int_from_bytes_hdr)
  have n: "decode (drop SEQ_SIZE fin_frame) = Inr (str_of ''fin'') \<and>
           (str_of ''fin'' \<noteq> str_of ''ack'' \<or> int_from_bytes (take SEQ_SIZE fin_frame) \<noteq> 10)"
    by (simp add: drop_fin_frame decode_fin fin_not_ack)
  note t = teardown_handshake[where fpkt = "[0, 0, 0, 10]" and fs = 10]
  have 1: "teardown [0, 0, 0, 10] 10 [Timeout, Recv (ack_frame 10), Recv fin_frame] []
     = Inr (True, [[0, 0, 0, 10], [0, 0, 0, 10]], [])"
    using t[where evs = "[Recv (ack_frame 10), Recv fin_frame]" and snt = "[]"]
          t[where response = "ack_frame 10" and fin_response = fin_frame and evs = "[]"
              and snt = "[[0, 0, 0, 10]]"] a n
    by (simp del: teardown.simps)
  have 2: "teardown [0, 0, 0, 10] 10 [Recv fin_frame, Recv (ack_frame 10), Timeout] []
     = Inr (False, [[0, 0, 0, 10], [0, 0, 0, 10], [0, 0, 0, 10]], [])"
    using t[where response = fin_frame and msg = "str_of ''fin''"
              and evs = "[Recv (ack_frame 10), Timeout]" and snt = "[]"]
          t[where response = "ack_frame 10" and evs = "[]" and snt = "[[0, 0, 0, 10]]"] a n
    by (simp del: teardown.simps) simp
  show ?thesis using f 1 2 by simp
qed

text \<open>
  As stated, claim C7 fails.  A payload of 10 bytes is acknowledged by the first frame;
  the terminal frame is then acknowledged, the wait for the FIN times out, and the FIN
  arrives next.  The sender does not take it: it has resent the terminal frame and waits
  for an ACK again, so it sends the terminal frame a third time and no FINACK.
\<close>

theorem teardown_handshake_counterexample:
  "transmit_file clock_ms DATA_SIZE WINDOW (replicate 10 7)
     [Recv (ack_frame 10), Recv (ack_frame 10), Timeout, Recv fin_frame]
   = Some (Inr (Blocked [[0, 0, 0, 0, 7, 7, 7, 7, 7, 7, 7, 7, 7, 7],
                         [0, 0, 0, 10], [0, 0, 0, 10], [0, 0, 0, 10]]))"
  by code_simp

text \<open>
  Notions for the statements about the data phase: the end offset of a packet, what one
  cumulative ACK does to a packet, the delay samples that one ACK appends (read from the
  clock from reading \<open>tk\<close> on), and the number of outstanding packets (sent at least
  once, not acknowledged).
\<close>

definition end_offset :: "packet \<Rightarrow> int" where
  "end_offset p = sequence p + length_f p"

definition ack_pkt :: "int \<Rightarrow> packet \<Rightarrow> packet" where
  "ack_pkt a p = (if a \<ge> end_offset p \<and> \<not> is_acked p then p\<lparr>is_acked := True\<rparr> else p)"

fun new_samples :: "(nat \<Rightarrow> real) \<Rightarrow> int \<Rightarrow> packet list \<Rightarrow> nat \<Rightarrow> real list" where
  "new_samples clk a [] tk = []"
| "new_samples clk a (p # ps) tk =
     (if a \<ge> end_offset p \<and> \<not> is_acked p then
        (case first_sent p of
           Some t \<Rightarrow> (clk tk - t) # new_samples clk a ps (tk + 1)
         | None \<Rightarrow> new_samples clk a ps tk)
      else new_samples clk a ps tk)"

definition outstanding :: "sender \<Rightarrow> nat" where
  "outstanding s = length (filter (\<lambda>p. first_sent p \<noteq> None \<and> \<not> is_acked p) (packet_list s))"

text \<open>
  What every step of the data phase keeps of a packet: offset, length and frame; an
  acknowledged packet is frozen; a first-send time, once set, stays; and the two time
  stamps are set together.  \<open>evolves\<close> lifts this to the state, with the cursors, the
  delay list, the log and the clock count only growing.
\<close>

definition stamps_ok :: "packet \<Rightarrow> bool" where
  "stamps_ok p = (first_sent p = None \<longleftrightarrow> recent_sent p = None)"

definition pkt_keeps :: "packet \<Rightarrow> packet \<Rightarrow> bool" where
  "pkt_keeps p p' =
     (sequence p' = sequence p \<and> length_f p' = length_f p \<and> raw p' = raw p \<and>
      (is_acked p \<longrightarrow> p' = p) \<and>
      (\<forall>t. first_sent p = Some t \<longrightarrow> first_sent p' = Some t) \<and>
      (stamps_ok p \<longrightarrow> stamps_ok p'))"

definition evolves :: "sender \<Rightarrow> sender \<Rightarrow> bool" where
  "evolves s s' =
     (length (packet_list s') = length (packet_list s) \<and>
      (\<forall>i < length (packet_list s). pkt_keeps (packet_list s ! i) (packet_list s' ! i)) \<and>
      left_edge s \<le> left_edge s' \<and> send_next s \<le> send_next s' \<and>
      prefix (delays s) (delays s') \<and> prefix (sent s) (sent s') \<and>
      ticks s \<le> ticks s' \<and> begin_t s' = begin_t s)"

text \<open>
  The invariant of the main loop for a window of \<open>W\<close> packets: the packets below
  \<open>left_edge\<close> are acknowledged and the one at \<open>left_edge\<close> is not; \<open>send_next\<close> is the
  right edge of the window; no packet from \<open>send_next\<close> on has been sent; the time stamps
  are set together; and there is one delay sample for each packet that is acknowledged
  and was sent.
\<close>

definition window_inv :: "nat \<Rightarrow> sender \<Rightarrow> bool" where
  "window_inv W s =
     (left_edge s \<le> num_packets s \<and>
      send_next s = min (left_edge s + W) (num_packets s) \<and>
      (\<forall>i < left_edge s. is_acked (packet_list s ! i)) \<and>
      (left_edge s < num_packets s \<longrightarrow> \<not> is_acked (packet_list s ! left_edge s)) \<and>
      (\<forall>i < num_packets s. send_next s \<le> i \<longrightarrow> first_sent (packet_list s ! i) = None) \<and>
      (\<forall>i < num_packets s. stamps_ok (packet_list s ! i)) \<and>
      length (delays s) =
        length (filter (\<lambda>p. is_acked p \<and> first_sent p \<noteq> None) (packet_list s)))"

text \<open>A table as the segmenter leaves it: nothing acknowledged, nothing sent.\<close>

definition fresh :: "packet list \<Rightarrow> bool" where
  "fresh pl = (\<forall>p \<in> set pl. \<not> is_acked p \<and> first_sent p = None \<and> recent_sent p = None)"

text \<open>
  The offset that an event acknowledges, if it is a frame with the body \<open>ack\<close>; the
  offsets acknowledged by a list of events; and the events that do not make \<^verbatim>\<open>decode\<close>
  raise.
\<close>

definition ack_value :: "event \<Rightarrow> int option" where
  "ack_value ev =
     (case ev of
        Timeout \<Rightarrow> None
      | Recv response \<Rightarrow>
          if decode (drop SEQ_SIZE response) = Inr (str_of ''ack'')
          then Some (int_from_bytes (take SEQ_SIZE response)) else None)"

definition ack_values :: "event list \<Rightarrow> int list" where
  "ack_values evs = List.map_filter ack_value evs"

definition decodable :: "event \<Rightarrow> bool" where
  "decodable ev =
     (case ev of
        Timeout \<Rightarrow> True
      | Recv response \<Rightarrow> (case decode (drop SEQ_SIZE response) of Inl e \<Rightarrow> False | Inr msg \<Rightarrow> True))"

section \<open>The loops of the data phase\<close>

lemma fold_upt_rule:
  assumes "P a s" and "\<And>i t. a \<le> i \<Longrightarrow> i < b \<Longrightarrow> P i t \<Longrightarrow> P (Suc i) (f i t)" and "a \<le> b"
  shows "P b (fold f [a..<b] s)"
  using assms(3,2)
proof (induction b rule: dec_induct)
  case base
  show ?case using assms(1) by simp
next
  case (step n)
  have "P n (fold f [a..<n] s)"
    by (rule step.IH) (use step.prems step.hyps in auto)
  then have "P (Suc n) (f n (fold f [a..<n] s))"
    using step.prems step.hyps by simp
  then show ?case using step.hyps by (simp add: upt_Suc_append)
qed

lemma new_samples_append:
  "new_samples clk a (xs @ ys) tk =
     new_samples clk a xs tk @ new_samples clk a ys (tk + length (new_samples clk a xs tk))"
  by (induction xs arbitrary: tk) (auto split: option.splits)

lemma ack_one_eq:
  assumes "idx < length (packet_list s)"
  shows "ack_one clk a idx s =
           s\<lparr>packet_list := (packet_list s)[idx := ack_pkt a (packet_list s ! idx)],
             delays := delays s @ new_samples clk a [packet_list s ! idx] (ticks s),
             ticks := ticks s + length (new_samples clk a [packet_list s ! idx] (ticks s))\<rparr>"
  by (auto simp: ack_one_def ack_pkt_def end_offset_def Let_def split: option.splits)

lemma take_map_update:
  assumes "k < length xs"
  shows "(map g (take k xs) @ drop k xs)[k := g (xs ! k)] = map g (take (Suc k) xs) @ drop (Suc k) xs"
proof -
  have "drop k xs = xs ! k # drop (Suc k) xs" using assms by (simp add: Cons_nth_drop_Suc)
  then have "(map g (take k xs) @ drop k xs)[k := g (xs ! k)]
             = map g (take k xs) @ g (xs ! k) # drop (Suc k) xs"
    using assms by (simp add: list_update_append)
  also have "\<dots> = map g (take (Suc k) xs) @ drop (Suc k) xs"
    using assms by (simp add: take_Suc_conv_app_nth)
  finally show ?thesis .
qed

lemma ack_fold_eq:
  "fold (ack_one clk a) [0..<length (packet_list s)] s =
     s\<lparr>packet_list := map (ack_pkt a) (packet_list s),
       delays := delays s @ new_samples clk a (packet_list s) (ticks s),
       ticks := ticks s + length (new_samples clk a (packet_list s) (ticks s))\<rparr>"
proof -
  let ?pl = "packet_list s"
  let ?P = "\<lambda>k t. t = s\<lparr>packet_list := map (ack_pkt a) (take k ?pl) @ drop k ?pl,
       delays := delays s @ new_samples clk a (take k ?pl) (ticks s),
       ticks := ticks s + length (new_samples clk a (take k ?pl) (ticks s))\<rparr>"
  have "?P (length ?pl) (fold (ack_one clk a) [0..<length ?pl] s)"
  proof (rule fold_upt_rule)
    show "?P 0 s" by simp
  next
    fix i t assume i: "0 \<le> i" "i < length ?pl" and t: "?P i t"
    have len: "i < length (packet_list t)" using i t by simp
    have nth: "packet_list t ! i = ?pl ! i" using i t by (simp add: nth_append)
    show "?P (Suc i) (ack_one clk a i t)"
      unfolding ack_one_eq[OF len] nth
      using i t
      by (simp add: take_map_update take_Suc_conv_app_nth new_samples_append)
  qed simp
  then show ?thesis by simp
qed

lemma pkt_keeps_refl: "pkt_keeps p p"
  by (simp add: pkt_keeps_def)

lemma pkt_keeps_trans: "pkt_keeps p q \<Longrightarrow> pkt_keeps q r \<Longrightarrow> pkt_keeps p r"
  by (auto simp: pkt_keeps_def)

lemma evolves_refl: "evolves s s"
  by (simp add: evolves_def pkt_keeps_refl)

lemma evolves_trans: "evolves s t \<Longrightarrow> evolves t u \<Longrightarrow> evolves s u"
  unfolding evolves_def
  by (auto intro: pkt_keeps_trans elim: prefix_order.trans)

lemma pkt_keeps_ack: "pkt_keeps p (ack_pkt a p)"
  by (simp add: pkt_keeps_def ack_pkt_def stamps_ok_def)

lemma evolves_update:
  assumes "idx < length (packet_list s)" and "pkt_keeps (packet_list s ! idx) p'"
    and "packet_list s' = (packet_list s)[idx := p']"
    and "left_edge s \<le> left_edge s'" "send_next s \<le> send_next s'"
    and "prefix (delays s) (delays s')" "prefix (sent s) (sent s')"
    and "ticks s \<le> ticks s'" "begin_t s' = begin_t s"
  shows "evolves s s'"
  using assms by (auto simp: evolves_def nth_list_update pkt_keeps_refl)

lemma send_new_evolves:
  assumes "idx < length (packet_list s)"
  shows "evolves s (send_new clk idx s)"
proof (cases "is_acked (packet_list s ! idx)")
  case True
  then show ?thesis by (simp add: send_new_def evolves_refl)
next
  case False
  let ?p = "packet_list s ! idx"
  let ?s' = "send_new clk idx s"
  obtain p' where p': "packet_list ?s' = (packet_list s)[idx := p']" "pkt_keeps ?p p'"
  proof (cases "first_sent ?p")
    case None
    show ?thesis
      by (rule that[of "?p\<lparr>first_sent := Some (clk (ticks s)), recent_sent := Some (clk (ticks s + 1))\<rparr>"])
         (use False None assms in \<open>simp_all add: send_new_def Let_def pkt_keeps_def stamps_ok_def\<close>)
  next
    case (Some t)
    show ?thesis
      by (rule that[of "?p\<lparr>recent_sent := Some (clk (ticks s))\<rparr>"])
         (use False Some assms in \<open>simp_all add: send_new_def Let_def pkt_keeps_def stamps_ok_def\<close>)
  qed
  show ?thesis
    by (rule evolves_update[OF assms p'(2) p'(1)])
       (use False in \<open>auto simp: send_new_def Let_def\<close>)
qed

lemma send_new_frame:
  assumes "idx < length (packet_list s)"
  shows "left_edge (send_new clk idx s) = left_edge s"
    and "send_next (send_new clk idx s) = send_next s"
    and "delays (send_new clk idx s) = delays s"
    and "length (packet_list (send_new clk idx s)) = length (packet_list s)"
    and "j \<noteq> idx \<Longrightarrow> packet_list (send_new clk idx s) ! j = packet_list s ! j"
    and "is_acked (packet_list (send_new clk idx s) ! j) = is_acked (packet_list s ! j)"
  using assms by (auto simp: send_new_def Let_def nth_list_update)

lemma resend_one_evolves:
  assumes "idx < length (packet_list s)"
  shows "evolves s (resend_one now idx s)"
proof (cases "recent_sent (packet_list s ! idx)")
  case None
  then show ?thesis by (simp add: resend_one_def evolves_refl)
next
  case (Some t)
  let ?p = "packet_list s ! idx"
  show ?thesis
  proof (cases "\<not> is_acked ?p \<and> now - t > RETRANSMIT_TIME")
    case False
    with Some show ?thesis by (auto simp: resend_one_def evolves_refl)
  next
    case True
    have k: "pkt_keeps ?p (?p\<lparr>recent_sent := Some now\<rparr>)"
      using True Some by (auto simp: pkt_keeps_def stamps_ok_def)
    show ?thesis
      by (rule evolves_update[OF assms k])
         (use True Some in \<open>auto simp: resend_one_def Let_def\<close>)
  qed
qed

lemma resend_one_frame:
  assumes "idx < length (packet_list s)"
  shows "left_edge (resend_one now idx s) = left_edge s"
    and "send_next (resend_one now idx s) = send_next s"
    and "delays (resend_one now idx s) = delays s"
    and "ticks (resend_one now idx s) = ticks s"
    and "last_check (resend_one now idx s) = last_check s"
    and "length (packet_list (resend_one now idx s)) = length (packet_list s)"
    and "is_acked (packet_list (resend_one now idx s) ! j) = is_acked (packet_list s ! j)"
    and "first_sent (packet_list (resend_one now idx s) ! j) = first_sent (packet_list s ! j)"
  using assms by (auto simp: resend_one_def Let_def nth_list_update split: option.splits)

lemma send_new_fold:
  assumes "b \<le> length (packet_list s)"
  shows "evolves s (fold (send_new clk) [a..<b] s) \<and>
         left_edge (fold (send_new clk) [a..<b] s) = left_edge s \<and>
         send_next (fold (send_new clk) [a..<b] s) = send_next s \<and>
         delays (fold (send_new clk) [a..<b] s) = delays s \<and>
         length (packet_list (fold (send_new clk) [a..<b] s)) = length (packet_list s) \<and>
         (\<forall>j. is_acked (packet_list (fold (send_new clk) [a..<b] s) ! j) = is_acked (packet_list s ! j)) \<and>
         (\<forall>j. j < a \<or> b \<le> j \<longrightarrow> packet_list (fold (send_new clk) [a..<b] s) ! j = packet_list s ! j)"
proof (cases "a \<le> b")
  case False
  then show ?thesis by (simp add: evolves_refl)
next
  case True
  let ?P = "\<lambda>i t. evolves s t \<and> left_edge t = left_edge s \<and> send_next t = send_next s \<and>
         delays t = delays s \<and> length (packet_list t) = length (packet_list s) \<and>
         (\<forall>j. is_acked (packet_list t ! j) = is_acked (packet_list s ! j)) \<and>
         (\<forall>j. j < a \<or> i \<le> j \<longrightarrow> packet_list t ! j = packet_list s ! j)"
  have "?P b (fold (send_new clk) [a..<b] s)"
  proof (rule fold_upt_rule)
    show "?P a s" by (simp add: evolves_refl)
  next
    fix i t assume i: "a \<le> i" "i < b" and t: "?P i t"
    then have len: "i < length (packet_list t)" using assms by simp
    have "evolves s (send_new clk i t)"
      using t send_new_evolves[OF len] by (blast intro: evolves_trans)
    moreover have "\<forall>j. j < a \<or> Suc i \<le> j \<longrightarrow> packet_list (send_new clk i t) ! j = packet_list s ! j"
      using t i send_new_frame(5)[OF len] by auto
    ultimately show "?P (Suc i) (send_new clk i t)"
      using t send_new_frame(1,2,3,4,6)[OF len] by simp
  qed (rule True)
  then show ?thesis .
qed

lemma resend_fold:
  assumes "b \<le> length (packet_list s)"
  shows "evolves s (fold (resend_one now) [a..<b] s) \<and>
         left_edge (fold (resend_one now) [a..<b] s) = left_edge s \<and>
         send_next (fold (resend_one now) [a..<b] s) = send_next s \<and>
         delays (fold (resend_one now) [a..<b] s) = delays s \<and>
         ticks (fold (resend_one now) [a..<b] s) = ticks s \<and>
         length (packet_list (fold (resend_one now) [a..<b] s)) = length (packet_list s) \<and>
         (\<forall>j. is_acked (packet_list (fold (resend_one now) [a..<b] s) ! j) = is_acked (packet_list s ! j)) \<and>
         (\<forall>j. first_sent (packet_list (fold (resend_one now) [a..<b] s) ! j) = first_sent (packet_list s ! j))"
proof (cases "a \<le> b")
  case False
  then show ?thesis by (simp add: evolves_refl)
next
  case True
  let ?P = "\<lambda>i t. evolves s t \<and> left_edge t = left_edge s \<and> send_next t = send_next s \<and>
         delays t = delays s \<and> ticks t = ticks s \<and> length (packet_list t) = length (packet_list s) \<and>
         (\<forall>j. is_acked (packet_list t ! j) = is_acked (packet_list s ! j)) \<and>
         (\<forall>j. first_sent (packet_list t ! j) = first_sent (packet_list s ! j))"
  have "?P b (fold (resend_one now) [a..<b] s)"
  proof (rule fold_upt_rule)
    show "?P a s" by (simp add: evolves_refl)
  next
    fix i t assume i: "a \<le> i" "i < b" and t: "?P i t"
    then have len: "i < length (packet_list t)" using assms by simp
    have "evolves s (resend_one now i t)"
      using t resend_one_evolves[OF len] by (blast intro: evolves_trans)
    then show "?P (Suc i) (resend_one now i t)"
      using t resend_one_frame(1,2,3,4,6,7,8)[OF len] by simp
  qed (rule True)
  then show ?thesis .
qed

lemma slide_props:
  assumes "le \<le> length pl" and "\<forall>i < le. is_acked (pl ! i)"
  shows "le \<le> slide pl le \<and> slide pl le \<le> length pl \<and>
         (\<forall>i < slide pl le. is_acked (pl ! i)) \<and>
         (slide pl le < length pl \<longrightarrow> \<not> is_acked (pl ! slide pl le))"
  using assms
proof (induction pl le rule: slide.induct)
  case (1 pl le)
  show ?case
  proof (cases "le < length pl \<and> is_acked (pl ! le)")
    case True
    have "\<forall>i < le + 1. is_acked (pl ! i)"
      using True "1.prems"(2) by (auto simp: less_Suc_eq)
    with "1.IH" True have "le + 1 \<le> slide pl (le + 1) \<and> slide pl (le + 1) \<le> length pl \<and>
         (\<forall>i < slide pl (le + 1). is_acked (pl ! i)) \<and>
         (slide pl (le + 1) < length pl \<longrightarrow> \<not> is_acked (pl ! slide pl (le + 1)))"
      by simp
    moreover have "slide pl le = slide pl (le + 1)"
      using True by (subst slide.simps) simp
    ultimately show ?thesis by simp
  next
    case False
    then have "slide pl le = le" by (subst slide.simps) auto
    with False "1.prems" show ?thesis by auto
  qed
qed

lemma slide_fixed:
  "le < length pl \<longrightarrow> \<not> is_acked (pl ! le) \<Longrightarrow> slide pl le = le"
  by (subst slide.simps) auto

lemma filter_length_cong:
  assumes "length xs = length ys" and "\<forall>i < length xs. P (xs ! i) = Q (ys ! i)"
  shows "length (filter P xs) = length (filter Q ys)"
  using assms
proof (induction xs ys rule: list_induct2)
  case Nil
  then show ?case by simp
next
  case (Cons x xs y ys)
  from Cons.prems have h: "P x = Q y" by force
  from Cons.prems have "\<forall>i < length xs. P (xs ! i) = Q (ys ! i)" by force
  with Cons.IH h show ?case by simp
qed

lemma length_new_samples:
  "length (new_samples clk a pl tk)
     = length (filter (\<lambda>p. a \<ge> end_offset p \<and> \<not> is_acked p \<and> first_sent p \<noteq> None) pl)"
  by (induction pl arbitrary: tk) (auto split: option.splits)

lemma acked_sent_after_ack:
  "length (filter (\<lambda>p. is_acked p \<and> first_sent p \<noteq> None) (map (ack_pkt a) pl))
     = length (filter (\<lambda>p. is_acked p \<and> first_sent p \<noteq> None) pl)
       + length (filter (\<lambda>p. a \<ge> end_offset p \<and> \<not> is_acked p \<and> first_sent p \<noteq> None) pl)"
  by (induction pl) (auto simp: ack_pkt_def)

lemma window_inv_cong:
  assumes "packet_list t = packet_list s" "left_edge t = left_edge s"
    "send_next t = send_next s" "delays t = delays s"
  shows "window_inv W t = window_inv W s"
  using assms by (simp add: window_inv_def num_packets_def)

lemma evolves_cong:
  assumes "packet_list t = packet_list u" "left_edge t = left_edge u"
    "send_next t = send_next u" "delays t = delays u" "sent t = sent u"
    "ticks t = ticks u" "begin_t t = begin_t u"
  shows "evolves s t = evolves s u"
  using assms by (simp add: evolves_def)

lemma handle_ack_inv:
  assumes inv: "window_inv W s"
  shows "window_inv W (handle_ack clk W a s) \<and> evolves s (handle_ack clk W a s) \<and>
         (\<forall>i < num_packets s. is_acked (packet_list (handle_ack clk W a s) ! i)
              = (is_acked (packet_list s ! i) \<or> end_offset (packet_list s ! i) \<le> a)) \<and>
         delays (handle_ack clk W a s) = delays s @ new_samples clk a (packet_list s) (ticks s)"
proof -
  let ?pl = "packet_list s"
  let ?n = "length ?pl"
  define s1 where "s1 = fold (ack_one clk a) [0..<num_packets s] s"
  have s1: "s1 = s\<lparr>packet_list := map (ack_pkt a) ?pl,
       delays := delays s @ new_samples clk a ?pl (ticks s),
       ticks := ticks s + length (new_samples clk a ?pl (ticks s))\<rparr>"
    unfolding s1_def num_packets_def by (rule ack_fold_eq)
  have pl1: "packet_list s1 = map (ack_pkt a) ?pl" and le1: "left_edge s1 = left_edge s"
    and sn1: "send_next s1 = send_next s"
    and d1: "delays s1 = delays s @ new_samples clk a ?pl (ticks s)"
    and n1: "num_packets s1 = ?n"
    by (simp_all add: s1 num_packets_def)
  have len1: "length (packet_list s1) = ?n" by (simp add: pl1)
  have ev1: "evolves s s1"
    by (simp add: evolves_def s1 pkt_keeps_ack)
  have acked1: "\<forall>i < ?n. is_acked (packet_list s1 ! i)
              = (is_acked (?pl ! i) \<or> end_offset (?pl ! i) \<le> a)"
    by (auto simp: pl1 ack_pkt_def)
  have first1: "\<forall>i < ?n. first_sent (packet_list s1 ! i) = first_sent (?pl ! i)"
    by (auto simp: pl1 ack_pkt_def)
  have stamps1: "\<forall>i < ?n. stamps_ok (packet_list s1 ! i)"
    using inv by (auto simp: pl1 ack_pkt_def window_inv_def num_packets_def stamps_ok_def)
  have cnt1: "length (delays s1)
      = length (filter (\<lambda>p. is_acked p \<and> first_sent p \<noteq> None) (packet_list s1))"
    unfolding d1 pl1 acked_sent_after_ack
    using inv by (simp add: length_new_samples window_inv_def)
  have le_n: "left_edge s \<le> ?n" and sn: "send_next s = min (left_edge s + W) ?n"
    using inv by (simp_all add: window_inv_def num_packets_def)
  have below1: "\<forall>i < left_edge s. is_acked (packet_list s1 ! i)"
    using inv le_n acked1 by (auto simp: window_inv_def)
  have beyond1: "\<forall>i < ?n. send_next s \<le> i \<longrightarrow> first_sent (packet_list s1 ! i) = None"
    using inv first1 by (auto simp: window_inv_def num_packets_def)
  define le' where "le' = slide (packet_list s1) (left_edge s1)"
  have sl: "left_edge s \<le> le'" "le' \<le> ?n" "\<forall>i < le'. is_acked (packet_list s1 ! i)"
    "le' < ?n \<longrightarrow> \<not> is_acked (packet_list s1 ! le')"
    using slide_props[of "left_edge s1" "packet_list s1"] le_n below1
    by (simp_all add: le'_def le1 len1)
  define s2 where "s2 = s1\<lparr>left_edge := le'\<rparr>"
  show ?thesis
  proof (cases "le' > left_edge s")
    case False
    then have eq: "le' = left_edge s" using sl(1) by simp
    have res: "handle_ack clk W a s = s2"
      unfolding handle_ack_def Let_def s1_def[symmetric]
      using False by (simp add: le'_def s2_def le1)
    have same: "s2 = s1" by (simp add: s2_def eq le1[symmetric])
    have "window_inv W s1"
      using le_n sn below1 beyond1 stamps1 cnt1 sl(4) eq
      by (simp add: window_inv_def n1 le1 sn1)
    then show ?thesis using ev1 acked1 d1 by (simp add: res same num_packets_def)
  next
    case True
    define s3 where "s3 = (if send_next s2 < left_edge s2 then s2\<lparr>send_next := left_edge s2\<rparr> else s2)"
    define re where "re = min (left_edge s3 + W) (num_packets s3)"
    define s4 where "s4 = fold (send_new clk) [send_next s3..<re] s3"
    have res: "handle_ack clk W a s = s4\<lparr>send_next := re\<rparr>"
      unfolding handle_ack_def Let_def s1_def[symmetric]
      using True by (simp add: le'_def s2_def s3_def re_def s4_def le1)
    have pl3: "packet_list s3 = packet_list s1" and le3: "left_edge s3 = le'"
      and sn3: "send_next s3 = max (send_next s) le'" and d3: "delays s3 = delays s1"
      and snt3: "sent s3 = sent s1" and tk3: "ticks s3 = ticks s1" and b3: "begin_t s3 = begin_t s1"
      by (auto simp: s3_def s2_def sn1)
    have re: "re = min (le' + W) ?n"
      by (simp add: re_def le3 num_packets_def pl3 pl1)
    have re_n: "re \<le> length (packet_list s3)" by (simp add: re pl3 pl1)
    have sn_re: "send_next s \<le> re" using sl(1) by (simp add: sn re)
    have le_re: "le' \<le> re" using sl(2) by (simp add: re)
    note f = send_new_fold[OF re_n, of clk "send_next s3", folded s4_def]
    have ev3: "evolves s s3"
      using ev1 sl(1) by (simp add: evolves_def pl3 le3 sn3 d3 snt3 tk3 b3)
    have ev4: "evolves s s4" using ev3 f by (blast intro: evolves_trans)
    have ev: "evolves s (s4\<lparr>send_next := re\<rparr>)"
      using ev4 sn_re by (simp add: evolves_def)
    have pl4_len: "length (packet_list s4) = ?n" using f by (simp add: pl3 pl1)
    have acked4: "\<forall>j. is_acked (packet_list s4 ! j) = is_acked (packet_list s1 ! j)"
      using f by (simp add: pl3)
    have le4: "left_edge s4 = le'" using f by (simp add: le3)
    have d4: "delays s4 = delays s1" using f by (simp add: d3)
    have beyond4: "\<forall>i < ?n. re \<le> i \<longrightarrow> first_sent (packet_list s4 ! i) = None"
    proof (intro allI impI)
      fix i assume i: "i < ?n" "re \<le> i"
      then have "packet_list s4 ! i = packet_list s1 ! i" using f by (simp add: pl3)
      then show "first_sent (packet_list s4 ! i) = None" using beyond1 i sn_re by simp
    qed
    have stamps4: "\<forall>i < ?n. stamps_ok (packet_list s4 ! i)"
    proof (intro allI impI)
      fix i assume i: "i < ?n"
      have "evolves s3 s4" using f by simp
      then have "pkt_keeps (packet_list s1 ! i) (packet_list s4 ! i)"
        using i by (simp add: evolves_def pl3 len1)
      then show "stamps_ok (packet_list s4 ! i)" using stamps1 i by (simp add: pkt_keeps_def)
    qed
    have cnt4: "length (delays s4)
      = length (filter (\<lambda>p. is_acked p \<and> first_sent p \<noteq> None) (packet_list s4))"
    proof -
      have "length (filter (\<lambda>p. is_acked p \<and> first_sent p \<noteq> None) (packet_list s1))
          = length (filter (\<lambda>p. is_acked p \<and> first_sent p \<noteq> None) (packet_list s4))"
      proof (rule filter_length_cong)
        show "length (packet_list s1) = length (packet_list s4)" by (simp add: pl4_len pl1)
        show "\<forall>i<length (packet_list s1).
           (is_acked (packet_list s1 ! i) \<and> first_sent (packet_list s1 ! i) \<noteq> None) =
           (is_acked (packet_list s4 ! i) \<and> first_sent (packet_list s4 ! i) \<noteq> None)"
        proof (intro allI impI)
          fix i assume i: "i < length (packet_list s1)"
          have "evolves s3 s4" using f by simp
          then have "pkt_keeps (packet_list s1 ! i) (packet_list s4 ! i)"
            using i by (simp add: evolves_def pl3)
          then show "(is_acked (packet_list s1 ! i) \<and> first_sent (packet_list s1 ! i) \<noteq> None) =
           (is_acked (packet_list s4 ! i) \<and> first_sent (packet_list s4 ! i) \<noteq> None)"
            using acked4 by (auto simp: pkt_keeps_def)
        qed
      qed
      then show ?thesis using cnt1 d4 by simp
    qed
    have "window_inv W (s4\<lparr>send_next := re\<rparr>)"
      using sl re beyond4 stamps4 cnt4 acked4
      by (simp add: window_inv_def num_packets_def pl4_len le4)
    moreover have "\<forall>i < ?n. is_acked (packet_list (s4\<lparr>send_next := re\<rparr>) ! i)
              = (is_acked (?pl ! i) \<or> end_offset (?pl ! i) \<le> a)"
      using acked1 acked4 by simp
    ultimately show ?thesis using ev d4 d1 by (simp add: res num_packets_def)
  qed
qed

lemma window_inv_other_fields:
  "window_inv W (s\<lparr>ticks := tk\<rparr>) = window_inv W s"
  "window_inv W (s\<lparr>total_acks := ta\<rparr>) = window_inv W s"
  "window_inv W (s\<lparr>last_check := lc\<rparr>) = window_inv W s"
  by (simp_all add: window_inv_def num_packets_def)

lemma evolves_other_fields:
  "evolves s (t\<lparr>last_check := lc\<rparr>) = evolves s t"
  "evolves (s\<lparr>total_acks := ta\<rparr>) t = evolves s t"
  by (simp_all add: evolves_def)

lemma timer_check_inv:
  assumes inv: "window_inv W s"
  shows "window_inv W (timer_check clk W s) \<and> evolves s (timer_check clk W s) \<and>
         (\<forall>j. is_acked (packet_list (timer_check clk W s) ! j) = is_acked (packet_list s ! j)) \<and>
         (\<forall>j. first_sent (packet_list (timer_check clk W s) ! j) = first_sent (packet_list s ! j)) \<and>
         delays (timer_check clk W s) = delays s \<and>
         left_edge (timer_check clk W s) = left_edge s \<and>
         send_next (timer_check clk W s) = send_next s"
proof -
  define s1 where "s1 = s\<lparr>ticks := ticks s + 1\<rparr>"
  have inv1: "window_inv W s1"
    using inv by (simp add: s1_def window_inv_other_fields)
  have ev1: "evolves s s1"
    by (simp add: evolves_def s1_def pkt_keeps_refl)
  show ?thesis
  proof (cases "clk (ticks s) - last_check s1 > 1 / 10")
    case False
    then have "timer_check clk W s = s1"
      by (simp add: timer_check_def Let_def s1_def)
    then show ?thesis using inv1 ev1 by (simp add: s1_def)
  next
    case True
    define re where "re = min (left_edge s1 + W) (num_packets s1)"
    define s2 where "s2 = fold (resend_one (clk (ticks s))) [left_edge s1..<re] s1"
    have res: "timer_check clk W s = s2\<lparr>last_check := clk (ticks s)\<rparr>"
      unfolding timer_check_def Let_def s1_def[symmetric]
      using True by (simp add: re_def s2_def)
    have re_n: "re \<le> length (packet_list s1)" by (simp add: re_def num_packets_def)
    note f = resend_fold[OF re_n, of "clk (ticks s)" "left_edge s1", folded s2_def]
    have ev2: "evolves s s2" using ev1 f by (blast intro: evolves_trans)
    have pk: "\<forall>i < length (packet_list s1). pkt_keeps (packet_list s1 ! i) (packet_list s2 ! i)"
      using f by (simp add: evolves_def)
    have cnt: "length (filter (\<lambda>p. is_acked p \<and> first_sent p \<noteq> None) (packet_list s1))
          = length (filter (\<lambda>p. is_acked p \<and> first_sent p \<noteq> None) (packet_list s2))"
      by (rule filter_length_cong) (use f in simp_all)
    have "window_inv W s2"
      using inv1 f pk cnt unfolding window_inv_def num_packets_def pkt_keeps_def
      by auto
    then have "window_inv W (s2\<lparr>last_check := clk (ticks s)\<rparr>)"
      by (simp add: window_inv_other_fields)
    moreover have "evolves s (s2\<lparr>last_check := clk (ticks s)\<rparr>)"
      using ev2 by (simp add: evolves_other_fields)
    ultimately show ?thesis using f by (simp add: res s1_def)
  qed
qed

lemma loop_iter_inv:
  assumes inv: "window_inv W s" and dec: "decodable ev"
  shows "\<exists>s'. loop_iter clk W ev s = Inr s' \<and> window_inv W s' \<and> evolves s s' \<and>
           (\<forall>i < num_packets s. is_acked (packet_list s' ! i)
              = (is_acked (packet_list s ! i) \<or>
                 (\<exists>a. ack_value ev = Some a \<and> end_offset (packet_list s ! i) \<le> a)))"
proof (cases ev)
  case Timeout
  then show ?thesis
    using timer_check_inv[OF inv, of clk] by (simp add: loop_iter_def ack_value_def)
next
  case (Recv response)
  from dec Recv obtain msg where msg: "decode (drop SEQ_SIZE response) = Inr msg"
    by (auto simp: decodable_def split: sum.splits)
  define s1 where "s1 = s\<lparr>total_acks := total_acks s + 1\<rparr>"
  have inv1: "window_inv W s1"
    using inv by (simp add: s1_def window_inv_other_fields)
  have pl1: "packet_list s1 = packet_list s" "num_packets s1 = num_packets s"
    by (simp_all add: s1_def num_packets_def)
  have ev1: "evolves s t = evolves s1 t" for t
    by (simp add: evolves_def s1_def)
  show ?thesis
  proof (cases "msg = str_of ''ack''")
    case False
    then have "loop_iter clk W ev s = Inr (timer_check clk W s1)"
      using Recv msg by (simp add: loop_iter_def Let_def s1_def)
    moreover have "ack_value ev = None" using False Recv msg by (simp add: ack_value_def)
    ultimately show ?thesis
      using timer_check_inv[OF inv1, of clk] by (simp add: ev1 pl1)
  next
    case True
    define a where "a = int_from_bytes (take SEQ_SIZE response)"
    define s2 where "s2 = handle_ack clk W a s1"
    have res: "loop_iter clk W ev s = Inr (timer_check clk W s2)"
      using Recv msg True by (simp add: loop_iter_def Let_def s1_def s2_def a_def)
    have av: "ack_value ev = Some a" using True Recv msg by (simp add: ack_value_def a_def)
    note h = handle_ack_inv[OF inv1, of clk a, folded s2_def]
    then have inv2: "window_inv W s2" by simp
    note t = timer_check_inv[OF inv2, of clk]
    have "evolves s (timer_check clk W s2)"
      using h t by (auto simp: ev1 intro: evolves_trans)
    moreover have "\<forall>i < num_packets s. is_acked (packet_list (timer_check clk W s2) ! i)
              = (is_acked (packet_list s ! i) \<or> end_offset (packet_list s ! i) \<le> a)"
      using h t by (simp add: pl1)
    ultimately show ?thesis using t res av by simp
  qed
qed

lemma evolves_end_offset:
  "evolves s s' \<Longrightarrow> i < length (packet_list s) \<Longrightarrow>
   end_offset (packet_list s' ! i) = end_offset (packet_list s ! i)"
  by (simp add: evolves_def pkt_keeps_def end_offset_def)

lemma ack_values_Cons:
  "set (ack_values (ev # evs)) = (case ack_value ev of None \<Rightarrow> {} | Some a \<Rightarrow> {a}) \<union> set (ack_values evs)"
  by (auto simp: ack_values_def List.map_filter_simps split: option.splits)

lemma main_loop_inv:
  assumes "window_inv W s" and "\<forall>ev \<in> set evs. decodable ev"
  shows "\<exists>s' rest. main_loop clk W evs s = Inr (s', rest) \<and> window_inv W s' \<and> evolves s s' \<and>
           (\<forall>i < num_packets s. is_acked (packet_list s' ! i)
              = (is_acked (packet_list s ! i) \<or>
                 (\<exists>a \<in> set (ack_values evs). end_offset (packet_list s ! i) \<le> a)))"
  using assms
proof (induction evs arbitrary: s)
  case Nil
  then show ?case by (simp add: evolves_refl ack_values_def List.map_filter_simps)
next
  case (Cons ev evs)
  show ?case
  proof (cases "all_acked s")
    case True
    then have "\<forall>i < num_packets s. is_acked (packet_list s ! i)"
      by (simp add: all_acked_def num_packets_def list_all_length)
    with True Cons.prems(1) show ?thesis by (simp add: evolves_refl)
  next
    case False
    from Cons.prems have dec: "decodable ev" by simp
    from loop_iter_inv[OF Cons.prems(1) dec, of clk] obtain s1
      where s1: "loop_iter clk W ev s = Inr s1" "window_inv W s1" "evolves s s1"
        "\<forall>i < num_packets s. is_acked (packet_list s1 ! i)
              = (is_acked (packet_list s ! i) \<or>
                 (\<exists>a. ack_value ev = Some a \<and> end_offset (packet_list s ! i) \<le> a))"
      by blast
    from Cons.IH[OF s1(2)] Cons.prems(2) obtain s' rest
      where s': "main_loop clk W evs s1 = Inr (s', rest)" "window_inv W s'" "evolves s1 s'"
        "\<forall>i < num_packets s1. is_acked (packet_list s' ! i)
              = (is_acked (packet_list s1 ! i) \<or>
                 (\<exists>a \<in> set (ack_values evs). end_offset (packet_list s1 ! i) \<le> a))"
      by auto
    have n: "num_packets s1 = num_packets s"
      using s1(3) by (simp add: evolves_def num_packets_def)
    have res: "main_loop clk W (ev # evs) s = Inr (s', rest)"
      using False s1(1) s'(1) by simp
    have "\<forall>i < num_packets s. is_acked (packet_list s' ! i)
              = (is_acked (packet_list s ! i) \<or>
                 (\<exists>a \<in> set (ack_values (ev # evs)). end_offset (packet_list s ! i) \<le> a))"
    proof (intro allI impI)
      fix i assume i: "i < num_packets s"
      then have eo: "end_offset (packet_list s1 ! i) = end_offset (packet_list s ! i)"
        using evolves_end_offset[OF s1(3)] by (simp add: num_packets_def)
      show "is_acked (packet_list s' ! i)
              = (is_acked (packet_list s ! i) \<or>
                 (\<exists>a \<in> set (ack_values (ev # evs)). end_offset (packet_list s ! i) \<le> a))"
        using s'(4) s1(4) i n eo
        by (cases "ack_value ev") (auto simp: ack_values_Cons)
    qed
    then show ?thesis
      using res s'(2) evolves_trans[OF s1(3) s'(3)] by blast
  qed
qed

lemma send_first_frame:
  assumes "idx < length (packet_list s)"
  shows "length (packet_list (send_first clk idx s)) = length (packet_list s)"
    and "j \<noteq> idx \<Longrightarrow> packet_list (send_first clk idx s) ! j = packet_list s ! j"
    and "sequence (packet_list (send_first clk idx s) ! j) = sequence (packet_list s ! j)"
    and "length_f (packet_list (send_first clk idx s) ! j) = length_f (packet_list s ! j)"
    and "raw (packet_list (send_first clk idx s) ! j) = raw (packet_list s ! j)"
    and "is_acked (packet_list (send_first clk idx s) ! j) = is_acked (packet_list s ! j)"
    and "first_sent (packet_list (send_first clk idx s) ! idx) \<noteq> None"
    and "recent_sent (packet_list (send_first clk idx s) ! idx) \<noteq> None"
    and "left_edge (send_first clk idx s) = left_edge s"
    and "send_next (send_first clk idx s) = send_next s"
    and "delays (send_first clk idx s) = delays s"
    and "begin_t (send_first clk idx s) = begin_t s"
    and "sent (send_first clk idx s) = sent s @ [raw (packet_list s ! idx)]"
  using assms by (auto simp: send_first_def Let_def nth_list_update)

lemma send_first_fold:
  assumes "b \<le> length (packet_list s)"
  shows "length (packet_list (fold (send_first clk) [0..<b] s)) = length (packet_list s) \<and>
         (\<forall>j. sequence (packet_list (fold (send_first clk) [0..<b] s) ! j) = sequence (packet_list s ! j) \<and>
              length_f (packet_list (fold (send_first clk) [0..<b] s) ! j) = length_f (packet_list s ! j) \<and>
              raw (packet_list (fold (send_first clk) [0..<b] s) ! j) = raw (packet_list s ! j) \<and>
              is_acked (packet_list (fold (send_first clk) [0..<b] s) ! j) = is_acked (packet_list s ! j)) \<and>
         (\<forall>j. b \<le> j \<longrightarrow> packet_list (fold (send_first clk) [0..<b] s) ! j = packet_list s ! j) \<and>
         (\<forall>j < b. first_sent (packet_list (fold (send_first clk) [0..<b] s) ! j) \<noteq> None \<and>
                  recent_sent (packet_list (fold (send_first clk) [0..<b] s) ! j) \<noteq> None) \<and>
         left_edge (fold (send_first clk) [0..<b] s) = left_edge s \<and>
         send_next (fold (send_first clk) [0..<b] s) = send_next s \<and>
         delays (fold (send_first clk) [0..<b] s) = delays s \<and>
         begin_t (fold (send_first clk) [0..<b] s) = begin_t s \<and>
         sent (fold (send_first clk) [0..<b] s) = sent s @ map raw (take b (packet_list s))"
proof -
  let ?P = "\<lambda>i t. length (packet_list t) = length (packet_list s) \<and>
         (\<forall>j. sequence (packet_list t ! j) = sequence (packet_list s ! j) \<and>
              length_f (packet_list t ! j) = length_f (packet_list s ! j) \<and>
              raw (packet_list t ! j) = raw (packet_list s ! j) \<and>
              is_acked (packet_list t ! j) = is_acked (packet_list s ! j)) \<and>
         (\<forall>j. i \<le> j \<longrightarrow> packet_list t ! j = packet_list s ! j) \<and>
         (\<forall>j < i. first_sent (packet_list t ! j) \<noteq> None \<and> recent_sent (packet_list t ! j) \<noteq> None) \<and>
         left_edge t = left_edge s \<and> send_next t = send_next s \<and> delays t = delays s \<and>
         begin_t t = begin_t s \<and> sent t = sent s @ map raw (take i (packet_list s))"
  have "?P b (fold (send_first clk) [0..<b] s)"
  proof (rule fold_upt_rule)
    show "?P 0 s" by simp
  next
    fix i and t :: sender assume i: "0 \<le> i" "i < b" and t: "?P i t"
    then have len: "i < length (packet_list t)" using assms by simp
    have len': "i < length (packet_list s)" using i assms by simp
    note f = send_first_frame[OF len, where clk = clk]
    have a: "\<forall>j. Suc i \<le> j \<longrightarrow> packet_list (send_first clk i t) ! j = packet_list s ! j"
      using t f(2) by auto
    have b: "\<forall>j < Suc i. first_sent (packet_list (send_first clk i t) ! j) \<noteq> None \<and>
                 recent_sent (packet_list (send_first clk i t) ! j) \<noteq> None"
    proof (intro allI impI)
      fix j assume "j < Suc i"
      then consider "j = i" | "j < i" by linarith
      then show "first_sent (packet_list (send_first clk i t) ! j) \<noteq> None \<and>
                 recent_sent (packet_list (send_first clk i t) ! j) \<noteq> None"
      proof cases
        case 1
        then show ?thesis using f(7,8) by simp
      next
        case 2
        then have "packet_list (send_first clk i t) ! j = packet_list t ! j"
          using f(2) by simp
        then show ?thesis using t 2 by simp
      qed
    qed
    have c: "sent (send_first clk i t) = sent s @ map raw (take (Suc i) (packet_list s))"
      using t f(13) len' by (simp add: take_Suc_conv_app_nth)
    show "?P (Suc i) (send_first clk i t)"
      using t a b c f(1,3,4,5,6,9,10,11,12) by simp
  qed simp
  then show ?thesis .
qed

lemma start_props:
  assumes "fresh pl"
  shows "window_inv W (start clk W pl)"
    and "length (packet_list (start clk W pl)) = length pl"
    and "\<forall>j. sequence (packet_list (start clk W pl) ! j) = sequence (pl ! j) \<and>
             length_f (packet_list (start clk W pl) ! j) = length_f (pl ! j) \<and>
             raw (packet_list (start clk W pl) ! j) = raw (pl ! j) \<and>
             is_acked (packet_list (start clk W pl) ! j) = is_acked (pl ! j)"
    and "left_edge (start clk W pl) = 0" and "delays (start clk W pl) = []"
    and "sent (start clk W pl) = map raw (take W pl)"
    and "send_next (start clk W pl) = min W (length pl)"
proof -
  define s0 where "s0 = \<lparr>packet_list = pl, begin_t = clk 0, left_edge = 0, send_next = 0,
                delays = [], last_check = clk 0, total_acks = 0, resends = 0,
                sent = [], ticks = 1\<rparr>"
  define re where "re = min W (length pl)"
  define s1 where "s1 = fold (send_first clk) [0..<re] s0"
  have st: "start clk W pl = s1\<lparr>send_next := re, last_check := clk (ticks s1), ticks := ticks s1 + 1\<rparr>"
    by (simp add: start_def Let_def s0_def re_def s1_def)
  have re_n: "re \<le> length (packet_list s0)" by (simp add: re_def s0_def)
  note f = send_first_fold[OF re_n, of clk, folded s1_def]
  have pl0: "packet_list s0 = pl" by (simp add: s0_def)
  have fr: "\<forall>i < length pl. \<not> is_acked (pl ! i) \<and> first_sent (pl ! i) = None \<and> recent_sent (pl ! i) = None"
    using assms by (simp add: fresh_def)
  show len: "length (packet_list (start clk W pl)) = length pl"
    using f by (simp add: st pl0)
  show same: "\<forall>j. sequence (packet_list (start clk W pl) ! j) = sequence (pl ! j) \<and>
             length_f (packet_list (start clk W pl) ! j) = length_f (pl ! j) \<and>
             raw (packet_list (start clk W pl) ! j) = raw (pl ! j) \<and>
             is_acked (packet_list (start clk W pl) ! j) = is_acked (pl ! j)"
    using f by (simp add: st pl0)
  show "left_edge (start clk W pl) = 0" using f by (simp add: st s0_def)
  show d: "delays (start clk W pl) = []" using f by (simp add: st s0_def)
  show "sent (start clk W pl) = map raw (take W pl)"
    using f by (simp add: st s0_def re_def min_def)
  show "send_next (start clk W pl) = min W (length pl)" by (simp add: st re_def)
  have unacked: "\<forall>i < length pl. \<not> is_acked (packet_list s1 ! i)"
    using f fr by (simp add: pl0)
  have "filter (\<lambda>p. is_acked p \<and> first_sent p \<noteq> None) (packet_list s1) = []"
    using unacked f by (auto simp: filter_empty_conv in_set_conv_nth pl0)
  then have cnt: "length (delays s1) = length (filter (\<lambda>p. is_acked p \<and> first_sent p \<noteq> None) (packet_list s1))"
    using f by (simp add: s0_def)
  have beyond: "\<forall>i < length pl. re \<le> i \<longrightarrow> first_sent (packet_list s1 ! i) = None"
    using f fr by (simp add: pl0)
  have stamps: "\<forall>i < length pl. stamps_ok (packet_list s1 ! i)"
  proof (intro allI impI)
    fix i assume i: "i < length pl"
    show "stamps_ok (packet_list s1 ! i)"
    proof (cases "i < re")
      case True
      then have "first_sent (packet_list s1 ! i) \<noteq> None \<and> recent_sent (packet_list s1 ! i) \<noteq> None"
        using f by blast
      then show ?thesis by (auto simp: stamps_ok_def)
    next
      case False
      then have "packet_list s1 ! i = pl ! i" using f by (simp add: pl0)
      then show ?thesis using fr i by (simp add: stamps_ok_def)
    qed
  qed
  have le1: "left_edge s1 = 0" using f by (simp add: s0_def)
  have len1: "length (packet_list s1) = length pl" using f by (simp add: pl0)
  show "window_inv W (start clk W pl)"
    using unacked beyond stamps cnt
    by (simp add: st window_inv_def num_packets_def le1 len1 re_def)
qed

lemma loop_iter_decodable: "loop_iter clk W ev s = Inr s' \<Longrightarrow> decodable ev"
  by (cases ev) (auto simp: loop_iter_def decodable_def Let_def split: sum.splits)

lemma main_loop_reach:
  assumes "window_inv W s" and "main_loop clk W evs s = Inr (s', rest)"
  shows "window_inv W s' \<and> evolves s s'"
  using assms
proof (induction evs arbitrary: s)
  case Nil
  then show ?case by (simp add: evolves_refl)
next
  case (Cons ev evs)
  show ?case
  proof (cases "all_acked s")
    case True
    with Cons.prems show ?thesis by (simp add: evolves_refl)
  next
    case False
    with Cons.prems(2) obtain s1 where s1: "loop_iter clk W ev s = Inr s1"
        "main_loop clk W evs s1 = Inr (s', rest)"
      by (auto split: sum.splits)
    from loop_iter_inv[OF Cons.prems(1) loop_iter_decodable[OF s1(1)], of clk] s1(1)
    have i1: "window_inv W s1" "evolves s s1" by auto
    from Cons.IH[OF i1(1) s1(2)] i1(2) show ?thesis
      by (blast intro: evolves_trans)
  qed
qed

lemma main_loop_append:
  "main_loop clk W evs1 s = Inr (s1, rest1) \<Longrightarrow>
   main_loop clk W (evs1 @ evs2) s = main_loop clk W (rest1 @ evs2) s1"
proof (induction evs1 arbitrary: s)
  case Nil
  then show ?case by simp
next
  case (Cons ev evs1)
  show ?case
  proof (cases "all_acked s")
    case True
    with Cons.prems show ?thesis by auto
  next
    case False
    with Cons.prems obtain s' where s': "loop_iter clk W ev s = Inr s'"
        "main_loop clk W evs1 s' = Inr (s1, rest1)"
      by (auto split: sum.splits)
    from Cons.IH[OF s'(2)] False s'(1) show ?thesis by simp
  qed
qed

lemma main_loop_later:
  assumes "fresh pl" and "main_loop clk W evs1 (start clk W pl) = Inr (s1, rest1)"
    and "main_loop clk W (evs1 @ evs2) (start clk W pl) = Inr (s, rest)"
  shows "window_inv W s1 \<and> window_inv W s \<and> evolves s1 s"
proof -
  have i1: "window_inv W s1"
    using main_loop_reach[OF start_props(1)[OF assms(1)] assms(2)] by simp
  have "main_loop clk W (rest1 @ evs2) s1 = Inr (s, rest)"
    using main_loop_append[OF assms(2), of evs2] assms(3) by simp
  from main_loop_reach[OF i1 this] i1 show ?thesis by simp
qed

lemma outstanding_le:
  assumes "\<forall>i < le. is_acked (packet_list s ! i)"
    and "\<forall>i < length (packet_list s). k \<le> i \<longrightarrow> first_sent (packet_list s ! i) = None"
    and "k \<le> le + W"
  shows "outstanding s \<le> W"
proof -
  let ?pl = "packet_list s"
  have "{i. i < length ?pl \<and> first_sent (?pl ! i) \<noteq> None \<and> \<not> is_acked (?pl ! i)} \<subseteq> {le..<k}"
    using assms(1,2) by (auto simp: not_less[symmetric])
  then have "card {i. i < length ?pl \<and> first_sent (?pl ! i) \<noteq> None \<and> \<not> is_acked (?pl ! i)}
             \<le> card {le..<k}"
    by (intro card_mono) simp_all
  also have "\<dots> \<le> W" using assms(3) by simp
  finally show ?thesis by (simp add: outstanding_def length_filter_conv_card)
qed

lemma window_inv_outstanding:
  assumes "window_inv W s"
  shows "outstanding s \<le> W" and "left_edge s \<le> send_next s"
    and "send_next s \<le> left_edge s + W" and "send_next s \<le> num_packets s"
proof -
  show "outstanding s \<le> W"
    by (rule outstanding_le[of "left_edge s" s "send_next s"])
       (use assms in \<open>auto simp: window_inv_def num_packets_def\<close>)
  show "left_edge s \<le> send_next s" "send_next s \<le> left_edge s + W" "send_next s \<le> num_packets s"
    using assms by (auto simp: window_inv_def)
qed

section \<open>Cumulative acknowledgment\<close>

lemma Max_ge_list: "(\<exists>a \<in> set xs. (e :: int) \<le> a) = (xs \<noteq> [] \<and> e \<le> Max (set xs))"
proof (cases "xs = []")
  case True
  then show ?thesis by simp
next
  case False
  then have "(e \<le> Max (set xs)) = (\<exists>a \<in> set xs. e \<le> a)"
    by (intro Max_ge_iff) simp_all
  with False show ?thesis by simp
qed

text \<open>
  Claim C1.  Start from a table as the segmenter leaves it and process any sequence of
  receive events none of which makes \<^verbatim>\<open>decode\<close> raise (timeouts, ACK frames in any order
  and with duplicates, other text frames).  The loop returns, and in its final state a
  packet is acknowledged exactly if some offset was acknowledged and the end offset of
  the packet is at most the maximum acknowledged offset.  No packet is processed twice:
  there is one delay sample for each packet that is acknowledged and was sent, and from
  any earlier state of the run on, an acknowledged packet is unchanged and the delay list
  only grows at its end.  \<open>left_edge\<close> at an earlier state of the run is at most
  \<open>left_edge\<close> at a later one.
\<close>

theorem cumulative_ack:
  assumes "fresh pl" and "\<forall>ev \<in> set evs. decodable ev"
  shows "\<exists>s rest. main_loop clk W evs (start clk W pl) = Inr (s, rest) \<and>
           length (packet_list s) = length pl \<and>
           (\<forall>i < length pl. is_acked (packet_list s ! i) =
                (ack_values evs \<noteq> [] \<and> end_offset (pl ! i) \<le> Max (set (ack_values evs)))) \<and>
           length (delays s) =
             length (filter (\<lambda>p. is_acked p \<and> first_sent p \<noteq> None) (packet_list s)) \<and>
           (\<forall>evs1 evs2 s1 rest1.
               evs = evs1 @ evs2 \<and> main_loop clk W evs1 (start clk W pl) = Inr (s1, rest1) \<longrightarrow>
                 left_edge s1 \<le> left_edge s \<and> prefix (delays s1) (delays s) \<and>
                 (\<forall>i < length pl. is_acked (packet_list s1 ! i) \<longrightarrow>
                      packet_list s ! i = packet_list s1 ! i))"
proof -
  let ?s0 = "start clk W pl"
  note sp = start_props[OF assms(1), where W = W and clk = clk]
  from main_loop_inv[OF sp(1) assms(2), of clk] obtain s rest
    where s: "main_loop clk W evs ?s0 = Inr (s, rest)" "window_inv W s" "evolves ?s0 s"
      "\<forall>i < num_packets ?s0. is_acked (packet_list s ! i)
              = (is_acked (packet_list ?s0 ! i) \<or>
                 (\<exists>a \<in> set (ack_values evs). end_offset (packet_list ?s0 ! i) \<le> a))"
    by blast
  have len: "length (packet_list s) = length pl"
    using s(3) sp(2) by (simp add: evolves_def)
  have acked: "\<forall>i < length pl. is_acked (packet_list s ! i) =
                (ack_values evs \<noteq> [] \<and> end_offset (pl ! i) \<le> Max (set (ack_values evs)))"
  proof (intro allI impI)
    fix i assume i: "i < length pl"
    have "\<not> is_acked (pl ! i)" using assms(1) i by (simp add: fresh_def)
    then have "\<not> is_acked (packet_list ?s0 ! i)" using sp(3) by simp
    moreover have "end_offset (packet_list ?s0 ! i) = end_offset (pl ! i)"
      using sp(3) by (simp add: end_offset_def)
    ultimately have "is_acked (packet_list s ! i)
        = (\<exists>a \<in> set (ack_values evs). end_offset (pl ! i) \<le> a)"
      using s(4) i sp(2) by (simp add: num_packets_def)
    then show "is_acked (packet_list s ! i) =
                (ack_values evs \<noteq> [] \<and> end_offset (pl ! i) \<le> Max (set (ack_values evs)))"
      by (simp only: Max_ge_list)
  qed
  have cnt: "length (delays s) =
             length (filter (\<lambda>p. is_acked p \<and> first_sent p \<noteq> None) (packet_list s))"
    using s(2) by (simp add: window_inv_def)
  have earlier: "\<forall>evs1 evs2 s1 rest1.
               evs = evs1 @ evs2 \<and> main_loop clk W evs1 ?s0 = Inr (s1, rest1) \<longrightarrow>
                 left_edge s1 \<le> left_edge s \<and> prefix (delays s1) (delays s) \<and>
                 (\<forall>i < length pl. is_acked (packet_list s1 ! i) \<longrightarrow>
                      packet_list s ! i = packet_list s1 ! i)"
  proof (intro allI impI, elim conjE)
    fix evs1 evs2 s1 rest1
    assume e: "evs = evs1 @ evs2" and m: "main_loop clk W evs1 ?s0 = Inr (s1, rest1)"
    have "evolves s1 s"
      using main_loop_later[OF assms(1) m, of evs2 s rest] s(1) e by simp
    moreover have "length (packet_list s1) = length pl"
      using main_loop_reach[OF sp(1) m] sp(2) by (simp add: evolves_def)
    ultimately show "left_edge s1 \<le> left_edge s \<and> prefix (delays s1) (delays s) \<and>
                 (\<forall>i < length pl. is_acked (packet_list s1 ! i) \<longrightarrow>
                      packet_list s ! i = packet_list s1 ! i)"
      by (simp add: evolves_def pkt_keeps_def)
  qed
  show ?thesis using s(1) len acked cnt earlier by blast
qed

lemma ack_value_ack_frame:
  "- (2 ^ 31) \<le> a \<Longrightarrow> a < 2 ^ 31 \<Longrightarrow> ack_value (Recv (ack_frame a)) = Some a"
  by (simp add: ack_value_def drop_ack_frame take_ack_frame decode_ack int_from_bytes_hdr)

lemma decodable_ack_frame: "decodable (Recv (ack_frame a))"
  by (simp add: decodable_def drop_ack_frame decode_ack)

lemma decodable_Timeout: "decodable Timeout"
  by (simp add: decodable_def)

lemma ack_value_Timeout: "ack_value Timeout = None"
  by (simp add: ack_value_def)

theorem cumulative_ack_witness:
  "\<exists>s rest. main_loop clock_ms 2 [Recv (ack_frame 2), Timeout, Recv (ack_frame 1)]
              (start clock_ms 2 [new_packet 0 [0, 0, 0, 0, 1] [1],
                                 new_packet 1 [0, 0, 0, 1, 2] [2],
                                 new_packet 2 [0, 0, 0, 2, 3] [3]]) = Inr (s, rest) \<and>
            map is_acked (packet_list s) = [True, True, False]"
proof -
  let ?pl = "[new_packet 0 [0, 0, 0, 0, 1] [1], new_packet 1 [0, 0, 0, 1, 2] [2],
              new_packet 2 [0, 0, 0, 2, 3] [3]]"
  let ?evs = "[Recv (ack_frame 2), Timeout, Recv (ack_frame 1)]"
  have f: "fresh ?pl" by (simp add: fresh_def new_packet_def)
  have d: "\<forall>ev \<in> set ?evs. decodable ev"
    by (simp add: decodable_ack_frame decodable_Timeout)
  have av: "ack_values ?evs = [2, 1]"
    by (simp add: ack_values_def List.map_filter_simps ack_value_ack_frame ack_value_Timeout)
  from cumulative_ack[OF f d, of clock_ms 2] obtain s rest
    where s: "main_loop clock_ms 2 ?evs (start clock_ms 2 ?pl) = Inr (s, rest)"
      "length (packet_list s) = length ?pl"
      "\<forall>i < length ?pl. is_acked (packet_list s ! i) =
                (ack_values ?evs \<noteq> [] \<and> end_offset (?pl ! i) \<le> Max (set (ack_values ?evs)))"
    by blast
  have "is_acked (packet_list s ! 0)" "is_acked (packet_list s ! Suc 0)"
    "\<not> is_acked (packet_list s ! Suc (Suc 0))"
    using s(3) by (simp_all add: av end_offset_def new_packet_def)
  then have m: "map is_acked (packet_list s) = [True, True, False]"
    using s(2) by (auto simp: list_eq_iff_nth_eq nth_Cons' less_Suc_eq numeral_3_eq_3)
  show ?thesis
    by (rule exI[of _ s], rule exI[of _ rest], rule conjI) (fact s(1), fact m)
qed

section \<open>The window bound\<close>

text \<open>
  The state inside \<^verbatim>\<open>if ack_msg == 'ack'\<close> just before the loop that sends the packets
  which entered the window: the packets are marked, \<open>left_edge\<close> has slid and
  \<open>send_next\<close> is clamped.
\<close>

definition window_entry :: "(nat \<Rightarrow> real) \<Rightarrow> int \<Rightarrow> sender \<Rightarrow> sender" where
  "window_entry clk ack_seq s =
     (let s1 = fold (ack_one clk ack_seq) [0..<num_packets s] s;
          s2 = s1\<lparr>left_edge := slide (packet_list s1) (left_edge s1)\<rparr>
      in if send_next s2 < left_edge s2 then s2\<lparr>send_next := left_edge s2\<rparr> else s2)"

lemma handle_ack_via_entry:
  "handle_ack clk W a s =
     (let e = window_entry clk a s;
          right_edge = min (left_edge e + W) (num_packets e)
      in if left_edge e > left_edge s
         then (fold (send_new clk) [send_next e..<right_edge] e)\<lparr>send_next := right_edge\<rparr>
         else e\<lparr>send_next := send_next s\<rparr>)"
proof -
  define s1 where "s1 = fold (ack_one clk a) [0..<num_packets s] s"
  have le1: "left_edge s1 = left_edge s" and sn1: "send_next s1 = send_next s"
    unfolding s1_def num_packets_def ack_fold_eq by simp_all
  show ?thesis
    unfolding handle_ack_def window_entry_def Let_def s1_def[symmetric]
    by (simp add: le1 sn1)
qed

text \<open>
  The state inside \<^verbatim>\<open>if ack_msg == 'ack'\<close> one step earlier, after the loop
  \<^verbatim>\<open>while left_edge < num_packets and packet_list[left_edge]['is_acked']\<close> and before
  \<^verbatim>\<open>if left_edge > old_edge\<close>: the packets are marked and \<open>left_edge\<close> has slid, and
  \<open>send_next\<close> is not clamped yet.
\<close>

definition after_slide :: "(nat \<Rightarrow> real) \<Rightarrow> int \<Rightarrow> sender \<Rightarrow> sender" where
  "after_slide clk ack_seq s =
     (let s1 = fold (ack_one clk ack_seq) [0..<num_packets s] s
      in s1\<lparr>left_edge := slide (packet_list s1) (left_edge s1)\<rparr>)"

lemma handle_ack_after_slide:
  "handle_ack clk W a s =
     (let s2 = after_slide clk a s
      in if left_edge s2 > left_edge s then
           (let s3 = (if send_next s2 < left_edge s2 then s2\<lparr>send_next := left_edge s2\<rparr> else s2);
                right_edge = min (left_edge s3 + W) (num_packets s3);
                s4 = fold (send_new clk) [send_next s3..<right_edge] s3
            in s4\<lparr>send_next := right_edge\<rparr>)
         else s2)"
proof -
  define s1 where "s1 = fold (ack_one clk a) [0..<num_packets s] s"
  have le1: "left_edge s1 = left_edge s"
    unfolding s1_def num_packets_def ack_fold_eq by simp
  show ?thesis
    unfolding handle_ack_def after_slide_def Let_def s1_def[symmetric]
    by (simp add: le1)
qed

lemma window_entry_after_slide:
  "window_entry clk a s =
     (if send_next (after_slide clk a s) < left_edge (after_slide clk a s)
      then (after_slide clk a s)\<lparr>send_next := left_edge (after_slide clk a s)\<rparr>
      else after_slide clk a s)"
  by (simp add: window_entry_def after_slide_def Let_def)

lemma after_slide_props:
  "packet_list (after_slide clk a s) = map (ack_pkt a) (packet_list s)"
  "send_next (after_slide clk a s) = send_next s"
  "left_edge (after_slide clk a s) = slide (map (ack_pkt a) (packet_list s)) (left_edge s)"
  "sent (after_slide clk a s) = sent s"
  "num_packets (after_slide clk a s) = num_packets s"
proof -
  define s1 where "s1 = fold (ack_one clk a) [0..<num_packets s] s"
  have s1: "packet_list s1 = map (ack_pkt a) (packet_list s)" "left_edge s1 = left_edge s"
    "send_next s1 = send_next s" "sent s1 = sent s"
    unfolding s1_def num_packets_def ack_fold_eq by simp_all
  show "packet_list (after_slide clk a s) = map (ack_pkt a) (packet_list s)"
    "send_next (after_slide clk a s) = send_next s"
    "left_edge (after_slide clk a s) = slide (map (ack_pkt a) (packet_list s)) (left_edge s)"
    "sent (after_slide clk a s) = sent s"
    "num_packets (after_slide clk a s) = num_packets s"
    unfolding after_slide_def Let_def s1_def[symmetric]
    by (simp_all add: s1 num_packets_def)
qed

lemma window_entry_props:
  "packet_list (window_entry clk a s) = map (ack_pkt a) (packet_list s)"
  "sent (window_entry clk a s) = sent s"
  "left_edge (window_entry clk a s) = slide (map (ack_pkt a) (packet_list s)) (left_edge s)"
  "send_next (window_entry clk a s) = max (send_next s) (left_edge (window_entry clk a s))"
  "num_packets (window_entry clk a s) = num_packets s"
  unfolding window_entry_after_slide
  by (auto simp: after_slide_props num_packets_def)

text \<open>
  The cursor inside the ACK branch: the slide leaves \<open>send_next\<close> as it is, the clamp
  raises it to \<open>left_edge\<close> if it is below, and the branch ends with a value that is not
  smaller.
\<close>

lemma cursor_in_ack_branch:
  assumes "window_inv W t"
  shows "send_next (after_slide clk a t) = send_next t"
    and "send_next t \<le> send_next (window_entry clk a t)"
    and "left_edge (window_entry clk a t) \<le> send_next (window_entry clk a t)"
    and "send_next (window_entry clk a t) \<le> left_edge (window_entry clk a t) + W"
    and "send_next (window_entry clk a t) \<le> send_next (handle_ack clk W a t)"
proof -
  show "send_next (after_slide clk a t) = send_next t" by (rule after_slide_props(2))
  show "send_next t \<le> send_next (window_entry clk a t)"
    and "left_edge (window_entry clk a t) \<le> send_next (window_entry clk a t)"
    by (simp_all add: window_entry_props(4))
  have le0: "left_edge t \<le> length (map (ack_pkt a) (packet_list t))"
    using assms by (simp add: window_inv_def num_packets_def)
  have acked: "\<forall>i < left_edge t. is_acked (map (ack_pkt a) (packet_list t) ! i)"
    using assms by (auto simp: window_inv_def num_packets_def ack_pkt_def)
  note sl = slide_props[OF le0 acked]
  have "send_next t \<le> left_edge t + W" using window_inv_outstanding(3)[OF assms] .
  then show up: "send_next (window_entry clk a t) \<le> left_edge (window_entry clk a t) + W"
    using sl by (simp add: window_entry_props(3,4))
  have n: "left_edge (window_entry clk a t) \<le> num_packets t" "send_next t \<le> num_packets t"
    using sl window_inv_outstanding(4)[OF assms] by (simp_all add: window_entry_props(3) num_packets_def)
  have lo: "left_edge t \<le> send_next t" using window_inv_outstanding(2)[OF assms] .
  show "send_next (window_entry clk a t) \<le> send_next (handle_ack clk W a t)"
  proof (cases "left_edge (window_entry clk a t) > left_edge t")
    case True
    have "send_next (handle_ack clk W a t)
            = min (left_edge (window_entry clk a t) + W) (num_packets (window_entry clk a t))"
      unfolding handle_ack_via_entry Let_def using True by simp
    then show ?thesis
      using up n by (simp add: window_entry_props(4,5))
  next
    case False
    then have eq: "left_edge (window_entry clk a t) = left_edge t"
      using sl by (simp add: window_entry_props(3))
    have "send_next (handle_ack clk W a t) = send_next t"
      unfolding handle_ack_via_entry Let_def using False by simp
    then show ?thesis using lo eq by (simp add: window_entry_props(4))
  qed
qed

lemma ack_fold_prefix:
  assumes "k \<le> length (packet_list s)"
  shows "fold (ack_one clk a) [0..<k] s =
     s\<lparr>packet_list := map (ack_pkt a) (take k (packet_list s)) @ drop k (packet_list s),
       delays := delays s @ new_samples clk a (take k (packet_list s)) (ticks s),
       ticks := ticks s + length (new_samples clk a (take k (packet_list s)) (ticks s))\<rparr>"
proof -
  let ?pl = "packet_list s"
  let ?P = "\<lambda>k t. t = s\<lparr>packet_list := map (ack_pkt a) (take k ?pl) @ drop k ?pl,
       delays := delays s @ new_samples clk a (take k ?pl) (ticks s),
       ticks := ticks s + length (new_samples clk a (take k ?pl) (ticks s))\<rparr>"
  have "?P k (fold (ack_one clk a) [0..<k] s)"
  proof (rule fold_upt_rule)
    show "?P 0 s" by simp
  next
    fix i t assume i: "0 \<le> i" "i < k" and t: "?P i t"
    have ik: "i < length ?pl" using i assms by simp
    have len: "i < length (packet_list t)" using ik t by simp
    have nth: "packet_list t ! i = ?pl ! i" using ik t by (simp add: nth_append)
    show "?P (Suc i) (ack_one clk a i t)"
      unfolding ack_one_eq[OF len] nth
      using ik t
      by (simp add: take_map_update take_Suc_conv_app_nth new_samples_append)
  qed simp
  then show ?thesis .
qed

lemma filter_length_mono:
  assumes "length xs = length ys" and "\<forall>i < length xs. Q (ys ! i) \<longrightarrow> P (xs ! i)"
  shows "length (filter Q ys) \<le> length (filter P xs)"
  using assms
proof (induction xs ys rule: list_induct2)
  case Nil
  then show ?case by simp
next
  case (Cons x xs y ys)
  from Cons.prems have h: "Q y \<longrightarrow> P x" by force
  from Cons.prems have "\<forall>i < length xs. Q (ys ! i) \<longrightarrow> P (xs ! i)" by force
  with Cons.IH h show ?case by auto
qed

lemma marking_outstanding:
  assumes "k \<le> num_packets s"
  shows "outstanding (fold (ack_one clk a) [0..<k] s) \<le> outstanding s"
proof -
  let ?pl = "packet_list s"
  let ?pl' = "map (ack_pkt a) (take k ?pl) @ drop k ?pl"
  have k: "k \<le> length ?pl" using assms by (simp add: num_packets_def)
  have len: "length ?pl = length ?pl'" using k by simp
  have each: "\<forall>i < length ?pl. first_sent (?pl' ! i) \<noteq> None \<and> \<not> is_acked (?pl' ! i) \<longrightarrow>
                 first_sent (?pl ! i) \<noteq> None \<and> \<not> is_acked (?pl ! i)"
  proof (intro allI impI)
    fix i assume i: "i < length ?pl"
      and h: "first_sent (?pl' ! i) \<noteq> None \<and> \<not> is_acked (?pl' ! i)"
    have "?pl' ! i = ack_pkt a (?pl ! i) \<or> ?pl' ! i = ?pl ! i"
      using i k by (cases "i < k") (simp_all add: nth_append)
    then show "first_sent (?pl ! i) \<noteq> None \<and> \<not> is_acked (?pl ! i)"
      using h by (auto simp: ack_pkt_def split: if_splits)
  qed
  have "outstanding (fold (ack_one clk a) [0..<k] s)
        = length (filter (\<lambda>p. first_sent p \<noteq> None \<and> \<not> is_acked p) ?pl')"
    unfolding ack_fold_prefix[OF k] by (simp add: outstanding_def)
  also have "\<dots> \<le> length (filter (\<lambda>p. first_sent p \<noteq> None \<and> \<not> is_acked p) ?pl)"
    by (rule filter_length_mono[OF len each])
  finally show ?thesis by (simp add: outstanding_def)
qed

lemma sweep_outstanding:
  assumes "b \<le> num_packets s"
  shows "outstanding (fold (resend_one now) [a..<b] s) = outstanding s"
proof -
  have b: "b \<le> length (packet_list s)" using assms by (simp add: num_packets_def)
  note f = resend_fold[OF b, of now a]
  show ?thesis
    unfolding outstanding_def
    by (rule filter_length_cong) (use f in simp_all)
qed

lemma burst_outstanding:
  assumes "fresh (packet_list s0)" and "k \<le> W" and "k \<le> length (packet_list s0)"
  shows "outstanding (fold (send_first clk) [0..<k] s0) \<le> W"
proof -
  note f = send_first_fold[OF assms(3), of clk]
  have fr: "\<forall>i < length (packet_list s0). first_sent (packet_list s0 ! i) = None"
    using assms(1) by (simp add: fresh_def)
  show ?thesis
  proof (rule outstanding_le[of 0 _ k])
    show "\<forall>i<0. is_acked (packet_list (fold (send_first clk) [0..<k] s0) ! i)" by simp
    show "\<forall>i<length (packet_list (fold (send_first clk) [0..<k] s0)).
       k \<le> i \<longrightarrow> first_sent (packet_list (fold (send_first clk) [0..<k] s0) ! i) = None"
      using f fr by simp
    show "k \<le> 0 + W" using assms(2) by simp
  qed
qed

lemma sending_outstanding:
  assumes inv: "window_inv W s"
    and k: "k \<le> min (left_edge (window_entry clk a s) + W) (num_packets s)"
  shows "outstanding (fold (send_new clk) [send_next (window_entry clk a s)..<k] (window_entry clk a s)) \<le> W"
proof -
  let ?pl = "packet_list s"
  let ?n = "length ?pl"
  define e where "e = window_entry clk a s"
  define s1 where "s1 = fold (ack_one clk a) [0..<num_packets s] s"
  have s1: "s1 = s\<lparr>packet_list := map (ack_pkt a) ?pl,
       delays := delays s @ new_samples clk a ?pl (ticks s),
       ticks := ticks s + length (new_samples clk a ?pl (ticks s))\<rparr>"
    unfolding s1_def num_packets_def by (rule ack_fold_eq)
  have pl1: "packet_list s1 = map (ack_pkt a) ?pl" and le1: "left_edge s1 = left_edge s"
    and sn1: "send_next s1 = send_next s"
    by (simp_all add: s1)
  have len1: "length (packet_list s1) = ?n" by (simp add: pl1)
  have le_n: "left_edge s \<le> ?n" and sn: "send_next s = min (left_edge s + W) ?n"
    using inv by (simp_all add: window_inv_def num_packets_def)
  have below1: "\<forall>i < left_edge s. is_acked (packet_list s1 ! i)"
    using inv le_n by (auto simp: window_inv_def pl1 ack_pkt_def)
  have beyond1: "\<forall>i < ?n. send_next s \<le> i \<longrightarrow> first_sent (packet_list s1 ! i) = None"
    using inv by (auto simp: window_inv_def num_packets_def pl1 ack_pkt_def)
  define le' where "le' = slide (packet_list s1) (left_edge s1)"
  have sl: "left_edge s \<le> le'" "le' \<le> ?n" "\<forall>i < le'. is_acked (packet_list s1 ! i)"
    using slide_props[of "left_edge s1" "packet_list s1"] le_n below1
    by (simp_all add: le'_def le1 len1)
  have pe: "packet_list e = packet_list s1" and lee: "left_edge e = le'"
    and sne: "send_next e = max (send_next s) le'"
    unfolding e_def window_entry_def Let_def s1_def[symmetric]
    by (auto simp: le'_def sn1)
  have kn: "k \<le> length (packet_list e)" using k by (simp add: pe len1 num_packets_def)
  note f = send_new_fold[OF kn, of clk "send_next e"]
  let ?t = "fold (send_new clk) [send_next e..<k] e"
  have "outstanding ?t \<le> W"
  proof (rule outstanding_le[of le' _ "max k (send_next s)"])
    show "\<forall>i<le'. is_acked (packet_list ?t ! i)"
      using f sl(3) by (simp add: pe)
    show "\<forall>i<length (packet_list ?t). max k (send_next s) \<le> i \<longrightarrow> first_sent (packet_list ?t ! i) = None"
    proof (intro allI impI)
      fix i assume i: "i < length (packet_list ?t)" "max k (send_next s) \<le> i"
      then have "packet_list ?t ! i = packet_list s1 ! i" using f by (simp add: pe)
      moreover have "i < ?n" using i f by (simp add: pe len1)
      ultimately show "first_sent (packet_list ?t ! i) = None" using beyond1 i by simp
    qed
    show "max k (send_next s) \<le> le' + W"
      using k sl(1) by (simp add: lee[symmetric] e_def sn)
  qed
  then show ?thesis by (simp add: e_def)
qed

text \<open>
  Claim C3.  Along a run that starts from a table as the segmenter leaves it, at most \<open>W\<close>
  packets are outstanding (sent, not acknowledged) at every step, and the cursor
  \<open>send_next\<close> never decreases; but \<open>send_next\<close> is at least \<open>left_edge\<close> only at the pass
  boundaries of the main loop and from the clamp of the ACK branch on, not between the
  slide of \<open>left_edge\<close> and that clamp.  In detail: at every pass boundary at most \<open>W\<close>
  packets are outstanding, \<open>send_next\<close> is at least \<open>left_edge\<close> and at most
  \<open>left_edge + W\<close>, and \<open>send_next\<close> at an earlier boundary of the run is at most
  \<open>send_next\<close> at a later one.  The bound on the outstanding packets also holds between
  the boundaries: after each step of the initial burst, and, from any state \<open>t\<close> that
  satisfies the loop invariant (every boundary state does, and so does the state after
  the ACK branch), after each step of the marking loop, of the loop that sends the
  packets which entered the window, and of the timeout sweep.  Inside the ACK branch
  the slide leaves \<open>send_next\<close> as it is, the clamp does not lower it and makes it at least
  \<open>left_edge\<close>, and the branch ends with a value that is not lower.
\<close>

theorem window_bound:
  assumes "fresh pl" and "main_loop clk W evs (start clk W pl) = Inr (s, rest)"
  shows "outstanding s \<le> W \<and> left_edge s \<le> send_next s \<and> send_next s \<le> left_edge s + W \<and>
         window_inv W s \<and>
         (\<forall>evs1 evs2 s1 rest1.
             evs = evs1 @ evs2 \<and> main_loop clk W evs1 (start clk W pl) = Inr (s1, rest1) \<longrightarrow>
               send_next s1 \<le> send_next s \<and> outstanding s1 \<le> W \<and> left_edge s1 \<le> send_next s1) \<and>
         (\<forall>s0 k. packet_list s0 = pl \<and> k \<le> min W (length pl) \<longrightarrow>
             outstanding (fold (send_first clk) [0..<k] s0) \<le> W) \<and>
         (\<forall>t a ta tk lc now k x.
             window_inv W t \<longrightarrow>
               window_inv W (t\<lparr>total_acks := ta\<rparr>) \<and> window_inv W (t\<lparr>ticks := tk\<rparr>) \<and>
               window_inv W (handle_ack clk W a t) \<and> window_inv W (timer_check clk W t) \<and>
               outstanding t \<le> W \<and>
               (k \<le> num_packets t \<longrightarrow> outstanding (fold (ack_one clk a) [0..<k] t) \<le> W) \<and>
               (k \<le> min (left_edge (window_entry clk a t) + W) (num_packets t) \<longrightarrow>
                  outstanding (fold (send_new clk) [send_next (window_entry clk a t)..<k]
                                  (window_entry clk a t)) \<le> W) \<and>
               (k \<le> num_packets t \<longrightarrow> outstanding (fold (resend_one now) [x..<k] t) \<le> W)) \<and>
         (\<forall>t a. window_inv W t \<longrightarrow>
             send_next (after_slide clk a t) = send_next t \<and>
             send_next t \<le> send_next (window_entry clk a t) \<and>
             left_edge (window_entry clk a t) \<le> send_next (window_entry clk a t) \<and>
             send_next (window_entry clk a t) \<le> left_edge (window_entry clk a t) + W \<and>
             send_next (window_entry clk a t) \<le> send_next (handle_ack clk W a t))"
proof -
  let ?s0 = "start clk W pl"
  note sp = start_props[OF assms(1), where W = W and clk = clk]
  have inv: "window_inv W s"
    using main_loop_reach[OF sp(1) assms(2)] by simp
  note b = window_inv_outstanding[OF inv]
  have earlier: "\<forall>evs1 evs2 s1 rest1.
             evs = evs1 @ evs2 \<and> main_loop clk W evs1 ?s0 = Inr (s1, rest1) \<longrightarrow>
               send_next s1 \<le> send_next s \<and> outstanding s1 \<le> W \<and> left_edge s1 \<le> send_next s1"
  proof (intro allI impI, elim conjE)
    fix evs1 evs2 s1 rest1
    assume e: "evs = evs1 @ evs2" and m: "main_loop clk W evs1 ?s0 = Inr (s1, rest1)"
    have l: "window_inv W s1 \<and> window_inv W s \<and> evolves s1 s"
      using main_loop_later[OF assms(1) m, of evs2 s rest] assms(2) e by simp
    then show "send_next s1 \<le> send_next s \<and> outstanding s1 \<le> W \<and> left_edge s1 \<le> send_next s1"
      using window_inv_outstanding[of W s1] by (simp add: evolves_def)
  qed
  have burst: "\<forall>s0 k. packet_list s0 = pl \<and> k \<le> min W (length pl) \<longrightarrow>
             outstanding (fold (send_first clk) [0..<k] s0) \<le> W"
    using assms(1) by (auto intro: burst_outstanding)
  have between: "\<forall>t a ta tk lc now k x.
             window_inv W t \<longrightarrow>
               window_inv W (t\<lparr>total_acks := ta\<rparr>) \<and> window_inv W (t\<lparr>ticks := tk\<rparr>) \<and>
               window_inv W (handle_ack clk W a t) \<and> window_inv W (timer_check clk W t) \<and>
               outstanding t \<le> W \<and>
               (k \<le> num_packets t \<longrightarrow> outstanding (fold (ack_one clk a) [0..<k] t) \<le> W) \<and>
               (k \<le> min (left_edge (window_entry clk a t) + W) (num_packets t) \<longrightarrow>
                  outstanding (fold (send_new clk) [send_next (window_entry clk a t)..<k]
                                  (window_entry clk a t)) \<le> W) \<and>
               (k \<le> num_packets t \<longrightarrow> outstanding (fold (resend_one now) [x..<k] t) \<le> W)"
  proof (intro allI impI)
    fix t :: sender and a ta tk and lc :: real and now k x
    assume t: "window_inv W t"
    have o: "outstanding t \<le> W" using window_inv_outstanding(1)[OF t] .
    have m: "k \<le> num_packets t \<longrightarrow> outstanding (fold (ack_one clk a) [0..<k] t) \<le> W"
      using marking_outstanding[of k t clk a] o by auto
    have sw: "k \<le> num_packets t \<longrightarrow> outstanding (fold (resend_one now) [x..<k] t) \<le> W"
      using sweep_outstanding[of k t now x] o by auto
    have sd: "k \<le> min (left_edge (window_entry clk a t) + W) (num_packets t) \<longrightarrow>
                  outstanding (fold (send_new clk) [send_next (window_entry clk a t)..<k]
                                  (window_entry clk a t)) \<le> W"
      using sending_outstanding[OF t] by blast
    show "window_inv W (t\<lparr>total_acks := ta\<rparr>) \<and> window_inv W (t\<lparr>ticks := tk\<rparr>) \<and>
               window_inv W (handle_ack clk W a t) \<and> window_inv W (timer_check clk W t) \<and>
               outstanding t \<le> W \<and>
               (k \<le> num_packets t \<longrightarrow> outstanding (fold (ack_one clk a) [0..<k] t) \<le> W) \<and>
               (k \<le> min (left_edge (window_entry clk a t) + W) (num_packets t) \<longrightarrow>
                  outstanding (fold (send_new clk) [send_next (window_entry clk a t)..<k]
                                  (window_entry clk a t)) \<le> W) \<and>
               (k \<le> num_packets t \<longrightarrow> outstanding (fold (resend_one now) [x..<k] t) \<le> W)"
      using t o m sw sd handle_ack_inv[OF t, of clk a] timer_check_inv[OF t, of clk]
      by (simp add: window_inv_other_fields)
  qed
  have cursor: "\<forall>t a. window_inv W t \<longrightarrow>
             send_next (after_slide clk a t) = send_next t \<and>
             send_next t \<le> send_next (window_entry clk a t) \<and>
             left_edge (window_entry clk a t) \<le> send_next (window_entry clk a t) \<and>
             send_next (window_entry clk a t) \<le> left_edge (window_entry clk a t) + W \<and>
             send_next (window_entry clk a t) \<le> send_next (handle_ack clk W a t)"
    using cursor_in_ack_branch by blast
  have bounds: "outstanding s \<le> W \<and> left_edge s \<le> send_next s \<and> send_next s \<le> left_edge s + W"
    using b(1,2,3) by simp
  show ?thesis by (intro conjI bounds[THEN conjunct1] bounds[THEN conjunct2, THEN conjunct1]
      bounds[THEN conjunct2, THEN conjunct2] inv earlier burst between cursor)
qed

theorem window_bound_witness:
  "\<exists>s rest. main_loop clock_ms 2 [Recv (ack_frame 2)]
              (start clock_ms 2 [new_packet 0 [0, 0, 0, 0, 1] [1],
                                 new_packet 1 [0, 0, 0, 1, 2] [2],
                                 new_packet 2 [0, 0, 0, 2, 3] [3]]) = Inr (s, rest) \<and>
            outstanding s \<le> 2 \<and> left_edge s \<le> send_next s"
proof -
  let ?pl = "[new_packet 0 [0, 0, 0, 0, 1] [1], new_packet 1 [0, 0, 0, 1, 2] [2],
              new_packet 2 [0, 0, 0, 2, 3] [3]]"
  let ?evs = "[Recv (ack_frame 2)]"
  have f: "fresh ?pl" by (simp add: fresh_def new_packet_def)
  have d: "\<forall>ev \<in> set ?evs. decodable ev"
    by (simp add: decodable_ack_frame)
  from main_loop_inv[OF start_props(1)[OF f, where W = 2 and clk = clock_ms] d, where clk = clock_ms]
  obtain s rest
    where s: "main_loop clock_ms 2 ?evs (start clock_ms 2 ?pl) = Inr (s, rest)"
    by blast
  from window_bound[OF f s] have b: "outstanding s \<le> 2 \<and> left_edge s \<le> send_next s"
    by blast
  show ?thesis
    by (rule exI[of _ s], rule exI[of _ rest], rule conjI) (fact s, fact b)
qed

text \<open>
  Between the slide and the clamp \<open>send_next\<close> can be below \<open>left_edge\<close>.  Three packets
  of one byte, a window of one packet: the initial burst sends the first packet, and the
  ACK of offset 3 marks all three, so that \<open>left_edge\<close> slides to 3 while \<open>send_next\<close>
  is still 1.
\<close>

theorem window_bound_counterexample:
  "segmenter 1 [1, 2, 3] =
     Some (Inr [new_packet 0 [0, 0, 0, 0, 1] [1], new_packet 1 [0, 0, 0, 1, 2] [2],
                new_packet 2 [0, 0, 0, 2, 3] [3]]) \<and>
   \<not> all_acked (start clock_ms 1 [new_packet 0 [0, 0, 0, 0, 1] [1], new_packet 1 [0, 0, 0, 1, 2] [2],
                                   new_packet 2 [0, 0, 0, 2, 3] [3]]) \<and>
   loop_iter clock_ms 1 (Recv (ack_frame 3))
       (start clock_ms 1 [new_packet 0 [0, 0, 0, 0, 1] [1], new_packet 1 [0, 0, 0, 1, 2] [2],
                          new_packet 2 [0, 0, 0, 2, 3] [3]])
     = Inr (timer_check clock_ms 1
             (handle_ack clock_ms 1 3
               ((start clock_ms 1 [new_packet 0 [0, 0, 0, 0, 1] [1], new_packet 1 [0, 0, 0, 1, 2] [2],
                                   new_packet 2 [0, 0, 0, 2, 3] [3]])\<lparr>total_acks := 1\<rparr>))) \<and>
   left_edge (after_slide clock_ms 3
               ((start clock_ms 1 [new_packet 0 [0, 0, 0, 0, 1] [1], new_packet 1 [0, 0, 0, 1, 2] [2],
                                   new_packet 2 [0, 0, 0, 2, 3] [3]])\<lparr>total_acks := 1\<rparr>)) = 3 \<and>
   send_next (after_slide clock_ms 3
               ((start clock_ms 1 [new_packet 0 [0, 0, 0, 0, 1] [1], new_packet 1 [0, 0, 0, 1, 2] [2],
                                   new_packet 2 [0, 0, 0, 2, 3] [3]])\<lparr>total_acks := 1\<rparr>)) = 1 \<and>
   \<not> left_edge (after_slide clock_ms 3
               ((start clock_ms 1 [new_packet 0 [0, 0, 0, 0, 1] [1], new_packet 1 [0, 0, 0, 1, 2] [2],
                                   new_packet 2 [0, 0, 0, 2, 3] [3]])\<lparr>total_acks := 1\<rparr>))
     \<le> send_next (after_slide clock_ms 3
               ((start clock_ms 1 [new_packet 0 [0, 0, 0, 0, 1] [1], new_packet 1 [0, 0, 0, 1, 2] [2],
                                   new_packet 2 [0, 0, 0, 2, 3] [3]])\<lparr>total_acks := 1\<rparr>))"
  by code_simp

section \<open>Delay measurement\<close>

text \<open>A clock on which successive readings are one second apart.\<close>

definition clock_s :: "nat \<Rightarrow> real" where
  "clock_s n = real n"

lemma new_samples_enumerate:
  "new_samples clk a pl tk =
     map (\<lambda>(k, p). clk k - the (first_sent p))
       (enumerate tk (filter (\<lambda>p. end_offset p \<le> a \<and> \<not> is_acked p \<and> first_sent p \<noteq> None) pl))"
  by (induction pl arbitrary: tk) (auto split: option.splits)

lemma timer_check_first_sent:
  "first_sent (packet_list (timer_check clk W s) ! j) = first_sent (packet_list s ! j)"
proof -
  define s1 where "s1 = s\<lparr>ticks := ticks s + 1\<rparr>"
  have re: "min (left_edge s1 + W) (num_packets s1) \<le> length (packet_list s1)"
    by (simp add: num_packets_def)
  note f = resend_fold[OF re, of "clk (ticks s)" "left_edge s1"]
  show ?thesis
    unfolding timer_check_def Let_def s1_def[symmetric]
    using f by (simp add: s1_def)
qed

lemma send_first_fold_stamps:
  assumes "b \<le> length (packet_list s)"
  shows "ticks (fold (send_first clk) [0..<b] s) = ticks s + 2 * b \<and>
         (\<forall>j < b. first_sent (packet_list (fold (send_first clk) [0..<b] s) ! j)
                    = Some (clk (ticks s + 2 * j)))"
proof -
  let ?P = "\<lambda>i t. length (packet_list t) = length (packet_list s) \<and> ticks t = ticks s + 2 * i \<and>
                    (\<forall>j < i. first_sent (packet_list t ! j) = Some (clk (ticks s + 2 * j)))"
  have "?P b (fold (send_first clk) [0..<b] s)"
  proof (rule fold_upt_rule[where P = ?P and a = 0])
    show "?P 0 s" by simp
  next
    fix i and t :: sender assume i: "0 \<le> i" "i < b" and t: "?P i t"
    have il: "i < length (packet_list t)" using i assms t by simp
    show "?P (Suc i) (send_first clk i t)"
    proof (intro conjI allI impI)
      show "length (packet_list (send_first clk i t)) = length (packet_list s)"
        using t by (simp add: send_first_def Let_def)
      show "ticks (send_first clk i t) = ticks s + 2 * Suc i"
        using t by (simp add: send_first_def Let_def)
      fix j assume "j < Suc i"
      then show "first_sent (packet_list (send_first clk i t) ! j) = Some (clk (ticks s + 2 * j))"
        using t il by (cases "j = i") (simp_all add: send_first_def Let_def)
    qed
  qed simp
  then show ?thesis by simp
qed

lemma start_first_sent:
  assumes "j < min W (length pl)"
  shows "first_sent (packet_list (start clk W pl) ! j) = Some (clk (2 * j + 1))"
proof -
  define s0 where "s0 = \<lparr>packet_list = pl, begin_t = clk 0, left_edge = 0, send_next = 0,
                delays = [], last_check = clk 0, total_acks = 0, resends = 0,
                sent = [], ticks = 1\<rparr>"
  define re where "re = min W (length pl)"
  define s1 where "s1 = fold (send_first clk) [0..<re] s0"
  have st: "start clk W pl = s1\<lparr>send_next := re, last_check := clk (ticks s1), ticks := ticks s1 + 1\<rparr>"
    by (simp add: start_def Let_def s0_def re_def s1_def)
  have re_n: "re \<le> length (packet_list s0)" by (simp add: re_def s0_def)
  note f = send_first_fold_stamps[OF re_n, of clk, folded s1_def]
  have "first_sent (packet_list s1 ! j) = Some (clk (ticks s0 + 2 * j))"
    using f assms by (simp add: re_def)
  then show ?thesis by (simp add: st s0_def)
qed

lemma send_new_stamp:
  assumes "idx < length (packet_list t)"
  shows "\<not> is_acked (packet_list t ! idx) \<Longrightarrow> first_sent (packet_list t ! idx) = None \<Longrightarrow>
           first_sent (packet_list (send_new clk idx t) ! idx) = Some (clk (ticks t)) \<and>
           sent (send_new clk idx t) = sent t @ [raw (packet_list t ! idx)]"
    and "first_sent (packet_list t ! idx) = Some u \<Longrightarrow>
           first_sent (packet_list (send_new clk idx t) ! idx) = Some u"
    and "j \<noteq> idx \<Longrightarrow> first_sent (packet_list (send_new clk idx t) ! j) = first_sent (packet_list t ! j)"
  using assms by (auto simp: send_new_def Let_def)

lemma marking_first_sent:
  assumes "j < num_packets t"
  shows "first_sent (packet_list (fold (ack_one clk a) [0..<num_packets t] t) ! j)
           = first_sent (packet_list t ! j)"
  using assms unfolding num_packets_def ack_fold_eq by (simp add: ack_pkt_def)

lemma entering_unstamped:
  assumes "window_inv W t" and "send_next (window_entry clk a t) \<le> k" and "k < num_packets t"
  shows "first_sent (packet_list (fold (send_new clk) [send_next (window_entry clk a t)..<k]
                                    (window_entry clk a t)) ! k) = None"
proof -
  define e where "e = window_entry clk a t"
  have kl: "k \<le> length (packet_list e)"
    using assms(3) by (simp add: e_def window_entry_props(1) num_packets_def)
  from send_new_fold[OF kl, of clk "send_next e"]
  have "packet_list (fold (send_new clk) [send_next e..<k] e) ! k = packet_list e ! k"
    by simp
  moreover have "first_sent (packet_list e ! k) = first_sent (packet_list t ! k)"
    using assms(3) by (simp add: e_def window_entry_props(1) num_packets_def ack_pkt_def)
  moreover have "send_next t \<le> k"
    using assms(2) by (simp add: window_entry_props(4))
  then have "first_sent (packet_list t ! k) = None"
    using assms(1,3) by (simp add: window_inv_def)
  ultimately show ?thesis by (simp add: e_def)
qed

text \<open>
  Claim C6.  Along a run that starts from a table as the segmenter leaves it, the
  first-send time of a packet is set when the packet is transmitted for the first time,
  to a clock reading made right after that transmission, and is the same at every later
  state of the run, whatever is retransmitted.  In detail: a first-send time that is set
  at some state of the run is the same at every later state; the two time stamps of a
  packet are set together, so a packet that the timeout sweep resends (it resends only
  packets whose last-send time is set) has its first-send time already, and neither a
  resend nor a whole sweep changes any first-send time.  The delay samples that an ACK
  appends are, for the packets it newly acknowledges that have been sent, in table
  order, a clock reading made while the ACK is processed minus the first-send time of
  the packet; the last-send time does not enter.  The packets of the initial burst are
  the first frames of the log, and packet \<open>j\<close> of the burst has the first-send time
  \<open>clk (2 * j + 1)\<close>, the reading that follows its transmission, at every state of the
  run.  The step that sends a packet which entered the window appends its frame to the
  log and, if the packet is not acknowledged and has no first-send time, sets it to the
  next clock reading; it keeps a first-send time that is set, and changes no other
  packet's; in the ACK branch the packet that this step is applied to has no first-send
  time, so the step is the first transmission of the packet.  The marking loop changes
  no first-send time.
\<close>

theorem first_sent_once:
  assumes "fresh pl" and "main_loop clk W evs1 (start clk W pl) = Inr (s1, rest1)"
  shows "(\<forall>evs2 s rest i t.
            main_loop clk W (evs1 @ evs2) (start clk W pl) = Inr (s, rest) \<and>
            i < length pl \<and> first_sent (packet_list s1 ! i) = Some t \<longrightarrow>
              first_sent (packet_list s ! i) = Some t) \<and>
         (\<forall>i < length pl. (first_sent (packet_list s1 ! i) = None) =
                           (recent_sent (packet_list s1 ! i) = None)) \<and>
         (\<forall>now idx j. idx < length pl \<longrightarrow>
            first_sent (packet_list (resend_one now idx s1) ! j) = first_sent (packet_list s1 ! j) \<and>
            (recent_sent (packet_list s1 ! idx) = None \<longrightarrow> resend_one now idx s1 = s1)) \<and>
         (\<forall>j. first_sent (packet_list (timer_check clk W s1) ! j) = first_sent (packet_list s1 ! j)) \<and>
         (\<forall>a. delays (handle_ack clk W a s1) =
                delays s1 @
                map (\<lambda>(k, p). clk k - the (first_sent p))
                  (enumerate (ticks s1)
                     (filter (\<lambda>p. end_offset p \<le> a \<and> \<not> is_acked p \<and> first_sent p \<noteq> None)
                        (packet_list s1)))) \<and>
         window_inv W s1 \<and>
         prefix (map raw (take W pl)) (sent s1) \<and>
         (\<forall>j < min W (length pl). first_sent (packet_list s1 ! j) = Some (clk (2 * j + 1))) \<and>
         (\<forall>t idx. idx < length (packet_list t) \<longrightarrow>
            (\<not> is_acked (packet_list t ! idx) \<and> first_sent (packet_list t ! idx) = None \<longrightarrow>
               first_sent (packet_list (send_new clk idx t) ! idx) = Some (clk (ticks t)) \<and>
               sent (send_new clk idx t) = sent t @ [raw (packet_list t ! idx)]) \<and>
            (\<forall>u. first_sent (packet_list t ! idx) = Some u \<longrightarrow>
               first_sent (packet_list (send_new clk idx t) ! idx) = Some u) \<and>
            (\<forall>j. j \<noteq> idx \<longrightarrow>
               first_sent (packet_list (send_new clk idx t) ! j) = first_sent (packet_list t ! j))) \<and>
         (\<forall>t a k. window_inv W t \<and> send_next (window_entry clk a t) \<le> k \<and> k < num_packets t \<longrightarrow>
            first_sent (packet_list (fold (send_new clk) [send_next (window_entry clk a t)..<k]
                                       (window_entry clk a t)) ! k) = None) \<and>
         (\<forall>t a j. j < num_packets t \<longrightarrow>
            first_sent (packet_list (fold (ack_one clk a) [0..<num_packets t] t) ! j)
              = first_sent (packet_list t ! j))"
proof -
  let ?s0 = "start clk W pl"
  note sp = start_props[OF assms(1), where W = W and clk = clk]
  have r1: "window_inv W s1" "evolves ?s0 s1"
    using main_loop_reach[OF sp(1) assms(2)] by simp_all
  have len1: "length (packet_list s1) = length pl"
    using r1(2) sp(2) by (simp add: evolves_def)
  have a: "\<forall>evs2 s rest i t.
            main_loop clk W (evs1 @ evs2) ?s0 = Inr (s, rest) \<and>
            i < length pl \<and> first_sent (packet_list s1 ! i) = Some t \<longrightarrow>
              first_sent (packet_list s ! i) = Some t"
  proof (intro allI impI, elim conjE)
    fix evs2 s rest i t
    assume m: "main_loop clk W (evs1 @ evs2) ?s0 = Inr (s, rest)"
      and i: "i < length pl" and t: "first_sent (packet_list s1 ! i) = Some t"
    have "evolves s1 s" using main_loop_later[OF assms(1) assms(2) m] by simp
    then have "pkt_keeps (packet_list s1 ! i) (packet_list s ! i)"
      using i len1 by (simp add: evolves_def)
    then show "first_sent (packet_list s ! i) = Some t" using t by (simp add: pkt_keeps_def)
  qed
  have b: "\<forall>i < length pl. (first_sent (packet_list s1 ! i) = None) =
                           (recent_sent (packet_list s1 ! i) = None)"
    using r1(1) len1 by (simp add: window_inv_def num_packets_def stamps_ok_def)
  have c: "\<forall>now idx j. idx < length pl \<longrightarrow>
            first_sent (packet_list (resend_one now idx s1) ! j) = first_sent (packet_list s1 ! j) \<and>
            (recent_sent (packet_list s1 ! idx) = None \<longrightarrow> resend_one now idx s1 = s1)"
    using resend_one_frame(8)[of _ s1] len1 by (simp add: resend_one_def)
  have d: "\<forall>j. first_sent (packet_list (timer_check clk W s1) ! j) = first_sent (packet_list s1 ! j)"
    by (simp add: timer_check_first_sent)
  have e: "\<forall>a. delays (handle_ack clk W a s1) =
                delays s1 @
                map (\<lambda>(k, p). clk k - the (first_sent p))
                  (enumerate (ticks s1)
                     (filter (\<lambda>p. end_offset p \<le> a \<and> \<not> is_acked p \<and> first_sent p \<noteq> None)
                        (packet_list s1)))"
    using handle_ack_inv[OF r1(1), of clk] by (simp add: new_samples_enumerate)
  have f: "prefix (map raw (take W pl)) (sent s1)"
    using r1(2) sp(6) by (simp add: evolves_def)
  have g: "\<forall>j < min W (length pl). first_sent (packet_list s1 ! j) = Some (clk (2 * j + 1))"
  proof (intro allI impI)
    fix j assume j: "j < min W (length pl)"
    then have "pkt_keeps (packet_list ?s0 ! j) (packet_list s1 ! j)"
      using r1(2) sp(2) by (simp add: evolves_def)
    then show "first_sent (packet_list s1 ! j) = Some (clk (2 * j + 1))"
      using start_first_sent[OF j, of clk] by (simp add: pkt_keeps_def)
  qed
  have h: "\<forall>t idx. idx < length (packet_list t) \<longrightarrow>
            (\<not> is_acked (packet_list t ! idx) \<and> first_sent (packet_list t ! idx) = None \<longrightarrow>
               first_sent (packet_list (send_new clk idx t) ! idx) = Some (clk (ticks t)) \<and>
               sent (send_new clk idx t) = sent t @ [raw (packet_list t ! idx)]) \<and>
            (\<forall>u. first_sent (packet_list t ! idx) = Some u \<longrightarrow>
               first_sent (packet_list (send_new clk idx t) ! idx) = Some u) \<and>
            (\<forall>j. j \<noteq> idx \<longrightarrow>
               first_sent (packet_list (send_new clk idx t) ! j) = first_sent (packet_list t ! j))"
    using send_new_stamp by blast
  have i: "\<forall>t a k. window_inv W t \<and> send_next (window_entry clk a t) \<le> k \<and> k < num_packets t \<longrightarrow>
            first_sent (packet_list (fold (send_new clk) [send_next (window_entry clk a t)..<k]
                                       (window_entry clk a t)) ! k) = None"
    using entering_unstamped by blast
  have k: "\<forall>t a j. j < num_packets t \<longrightarrow>
            first_sent (packet_list (fold (ack_one clk a) [0..<num_packets t] t) ! j)
              = first_sent (packet_list t ! j)"
    using marking_first_sent by blast
  show ?thesis by (intro conjI a b c d e r1(1) f g h i k)
qed

lemma retransmitted_run:
  "main_loop clock_s 1 [Timeout, Timeout, Recv (ack_frame 1)]
     (start clock_s 1 [new_packet 0 [0, 0, 0, 0, 1] [1]])
   = Inr (\<lparr>packet_list = [\<lparr>sequence = 0, raw = [0, 0, 0, 0, 1], length_f = 1, is_acked = True,
                             first_sent = Some 1, recent_sent = Some 5\<rparr>],
            begin_t = 0, left_edge = 1, send_next = 1, delays = [5], last_check = 7,
            total_acks = 1, resends = 2,
            sent = [[0, 0, 0, 0, 1], [0, 0, 0, 0, 1], [0, 0, 0, 0, 1]], ticks = 8\<rparr>, [])"
  by code_simp

lemma start_one_packet:
  "start clock_s 1 [new_packet 0 [0, 0, 0, 0, 1] [1]]
   = \<lparr>packet_list = [\<lparr>sequence = 0, raw = [0, 0, 0, 0, 1], length_f = 1, is_acked = False,
                         first_sent = Some 1, recent_sent = Some 2\<rparr>],
       begin_t = 0, left_edge = 0, send_next = 1, delays = [], last_check = 3,
       total_acks = 0, resends = 0, sent = [[0, 0, 0, 0, 1]], ticks = 4\<rparr>"
  by code_simp

theorem first_sent_once_witness:
  "\<exists>s rest. main_loop clock_s 1 [Timeout, Timeout, Recv (ack_frame 1)]
              (start clock_s 1 [new_packet 0 [0, 0, 0, 0, 1] [1]]) = Inr (s, rest) \<and>
            first_sent (packet_list (start clock_s 1 [new_packet 0 [0, 0, 0, 0, 1] [1]]) ! 0) = Some 1 \<and>
            resends s = 2 \<and> first_sent (packet_list s ! 0) = Some 1 \<and> delays s = [5]"
proof -
  let ?pl = "[new_packet 0 [0, 0, 0, 0, 1] [1]]"
  let ?s0 = "start clock_s 1 ?pl"
  let ?evs = "[Timeout, Timeout, Recv (ack_frame 1)]"
  obtain s where run: "main_loop clock_s 1 ?evs ?s0 = Inr (s, [])"
      and rs: "resends s = 2" and ds: "delays s = [5]"
    by (rule that[OF retransmitted_run]) simp_all
  have f: "fresh ?pl" by (simp add: fresh_def new_packet_def)
  have m0: "main_loop clock_s 1 [] ?s0 = Inr (?s0, [])" by (rule main_loop.simps(1))
  have f0: "first_sent (packet_list ?s0 ! 0) = Some 1"
    unfolding start_one_packet by simp
  have run': "main_loop clock_s 1 ([] @ ?evs) ?s0 = Inr (s, [])"
    using run by (simp only: append_Nil)
  have l: "(0 :: nat) < length ?pl" by simp
  note t = first_sent_once[OF f m0, THEN conjunct1, rule_format, of ?evs s "[]" 0 1]
  have fs: "first_sent (packet_list s ! 0) = Some 1"
    by (rule t) (intro conjI run' l f0)
  show ?thesis
    by (rule exI[of _ s], rule exI[of _ "[]"]) (intro conjI run f0 rs fs ds)
qed

section \<open>Stop-and-wait and the window of one packet\<close>


definition received :: "event list \<Rightarrow> event list" where
  "received evs = filter (\<lambda>ev. ev \<noteq> Timeout) evs"

text \<open>
  Stop-and-wait in the words of the specification, one segment outstanding at a time:
  with the end offsets \<open>ends\<close> of the segments and \<open>k\<close> segments completed, an ACK
  that echoes at least the end offset of segment \<open>k\<close> completes it, and any other
  event changes nothing.  \<open>sw_progress\<close> is the number of segments completed after a
  list of events.  \<open>sw_honest\<close> says that no ACK acknowledges bytes beyond the segment
  that is outstanding when it arrives (the peer acknowledges only what was sent).
\<close>

fun sw_progress :: "int list \<Rightarrow> nat \<Rightarrow> event list \<Rightarrow> nat" where
  "sw_progress ends k [] = k"
| "sw_progress ends k (ev # evs) =
     (if k < length ends then
        (case ack_value ev of
           None \<Rightarrow> sw_progress ends k evs
         | Some a \<Rightarrow> if a \<ge> ends ! k then sw_progress ends (k + 1) evs
                     else sw_progress ends k evs)
      else k)"

fun sw_honest :: "int list \<Rightarrow> nat \<Rightarrow> event list \<Rightarrow> bool" where
  "sw_honest ends k [] = True"
| "sw_honest ends k (ev # evs) =
     (if k < length ends then
        (case ack_value ev of
           None \<Rightarrow> sw_honest ends k evs
         | Some a \<Rightarrow> a \<le> ends ! k \<and>
                     (if a \<ge> ends ! k then sw_honest ends (k + 1) evs
                      else sw_honest ends k evs))
      else True)"







lemma sw_honest_done: "\<not> k < length ends \<Longrightarrow> sw_honest ends k evs"
  by (cases evs) simp_all


lemma sw_honest_received: "sw_honest ends k (received evs) = sw_honest ends k evs"
proof (induction evs arbitrary: k)
  case Nil
  then show ?case by (simp add: received_def)
next
  case (Cons ev evs)
  show ?case
  proof (cases "k < length ends")
    case False
    then show ?thesis by (simp add: sw_honest_done)
  next
    case True
    show ?thesis
    proof (cases ev)
      case Timeout
      then show ?thesis using True Cons.IH[of k]
        by (simp add: received_def ack_value_Timeout)
    next
      case (Recv r)
      then have "received (ev # evs) = ev # received evs" by (simp add: received_def)
      then show ?thesis using True Cons.IH by (simp split: option.splits)
    qed
  qed
qed

lemma sw_progress_bounds: "k \<le> length ends \<Longrightarrow> k \<le> sw_progress ends k evs \<and> sw_progress ends k evs \<le> length ends"
proof (induction evs arbitrary: k)
  case Nil
  then show ?case by simp
next
  case (Cons ev evs)
  show ?case
  proof (cases "k < length ends")
    case False
    with Cons.prems show ?thesis by simp
  next
    case True
    then have "Suc k \<le> length ends" by simp
    from Cons.IH[OF this] Cons.IH[OF Cons.prems] True show ?thesis
      by (auto split: option.splits)
  qed
qed






text \<open>The state in which the loop of \<^verbatim>\<open>send_file\<close> starts.\<close>

definition sw_start :: sw_sender where
  "sw_start = \<lparr>all_delays = [], current_position = 0, packet_count = 0, sw_sent = [], sw_ticks = 1\<rparr>"






























text \<open>
  The values of the delay samples are differences of clock readings, and the two senders
  read the clock at different points: the windowed sender stamps the first-send time
  after \<^verbatim>\<open>sendto\<close> and reads the clock twice more (last-send time, start of the sweep
  period) before it receives, stop-and-wait reads the start time before \<^verbatim>\<open>sendto\<close>.  On
  a clock that advances by one millisecond with every reading, one segment and its ACK
  give the samples 3 ms and 1 ms.
\<close>

lemma sample_values_differ:
  "main_loop clock_ms 1 [Recv (ack_frame 1)] (start clock_ms 1 [new_packet 0 [0, 0, 0, 0, 1] [1]])
   = Inr (\<lparr>packet_list =
            [\<lparr>sequence = 0, raw = [0, 0, 0, 0, 1], length_f = 1, is_acked = True,
                first_sent = Some (1 / 1000), recent_sent = Some (1 / 500)\<rparr>],
            begin_t = 0, left_edge = 1, send_next = 1, delays = [3 / 1000],
            last_check = 3 / 1000, total_acks = 1, resends = 0,
            sent = [[0, 0, 0, 0, 1]], ticks = 6\<rparr>, []) \<and>
   send_chunks clock_ms 1 [1] [Recv (ack_frame 1)] sw_start
   = Inr (True,
          \<lparr>all_delays = [1 / 1000], current_position = 1, packet_count = 1,
             sw_sent = [[0, 0, 0, 0, 1]], sw_ticks = 3\<rparr>, [])"
  by code_simp

end
